theory Spec2Isabelle
  imports Main "HOL-Library.Char_ord" "HOL-Library.List_Lexorder" "HOL-Library.Product_Lexorder"
    "HOL-Library.AList" "HOL-Library.Sublist" "HOL-Library.Multiset"
begin

section \<open>Python strings\<close>

text \<open>
  A Python 3 \<open>str\<close> is modelled as a \<open>string\<close> whose characters are the code points
  below 256. \<open>py_isspace\<close> is \<open>str.isspace\<close> on one such code point (the characters
  \<open>str.strip()\<close> and \<open>int()\<close> skip), \<open>py_isdigit\<close> is the class \<open>\d\<close>, \<open>py_isword\<close>
  the class \<open>\w\<close>.
\<close>

abbreviation NL :: char where
  "NL \<equiv> CHR 0x0A"

definition py_isspace :: "char \<Rightarrow> bool" where
  "py_isspace c = (let n = (of_char c :: nat) in
     (9 \<le> n \<and> n \<le> 13) \<or> (28 \<le> n \<and> n \<le> 32) \<or> n = 133 \<or> n = 160)"

definition py_isdigit :: "char \<Rightarrow> bool" where
  "py_isdigit c = (CHR ''0'' \<le> c \<and> c \<le> CHR ''9'')"

definition py_isword :: "char \<Rightarrow> bool" where
  "py_isword c = (let n = (of_char c :: nat) in
     py_isdigit c \<or> (CHR ''A'' \<le> c \<and> c \<le> CHR ''Z'') \<or> (CHR ''a'' \<le> c \<and> c \<le> CHR ''z'')
     \<or> c = CHR ''_''
     \<or> n = 170 \<or> n = 178 \<or> n = 179 \<or> n = 181 \<or> n = 185 \<or> n = 186
     \<or> (188 \<le> n \<and> n \<le> 190) \<or> (192 \<le> n \<and> n \<le> 214) \<or> (216 \<le> n \<and> n \<le> 246)
     \<or> 248 \<le> n)"

definition py_strip :: "string \<Rightarrow> string" where
  "py_strip s = rev (dropWhile py_isspace (rev (dropWhile py_isspace s)))"

fun py_split :: "char \<Rightarrow> string \<Rightarrow> string list" where
  "py_split sep [] = [[]]"
| "py_split sep (c # cs) =
     (if c = sep then [] # py_split sep cs
      else (case py_split sep cs of [] \<Rightarrow> [[c]] | w # ws \<Rightarrow> (c # w) # ws))"

fun py_join :: "string \<Rightarrow> string list \<Rightarrow> string" where
  "py_join sep [] = []"
| "py_join sep [x] = x"
| "py_join sep (x # y # ys) = x @ sep @ py_join sep (y # ys)"

section \<open>Errors\<close>

text \<open>
  Every exception the modelled code can raise, with the data its message is formatted
  from. \<open>ValueError_invalid_literal s\<close> is \<open>int(s)\<close> failing: its message is
  \<open>invalid literal for int() with base 10: repr(s)\<close>. \<open>TypeError_int_of_None\<close> is
  \<open>int(None)\<close>. \<open>ValueError_multiple_files\<close> is the \<open>raise\<close> of \<open>group_files\<close>, whose
  message is formatted from the current filename and from \<open>frame_file_tuples[frame]\<close>.
  \<open>TypeError_sequence_item i\<close> is \<open>str.join\<close> finding that item \<open>i\<close> of its argument is
  not a string.
\<close>

datatype pyobj = PyNone | PyInt int | PyStr string | PyTuple "pyobj list"

datatype error =
    TypeError_int_of_None
  | ValueError_invalid_literal string
  | ValueError_multiple_files string pyobj
  | IndexError_list_index
  | TypeError_list_index
  | TypeError_not_orderable
  | TypeError_sequence_item nat
  | AttributeError_NoneType
  | LoadError string

section \<open>Regular expressions\<close>

text \<open>
  The fragment of Python's \<open>re\<close> that the patterns of the script use, as a backtracking
  matcher. \<open>rmatch r n s e\<close> lists, in the order Python's matcher tries them, every way
  \<open>r\<close> can match at the front of \<open>s\<close>: the text left over and the groups captured.
  \<open>n\<close> is the length of the whole subject (for \<open>^\<close>), \<open>e\<close> the groups captured so far,
  the latest capture first. A repeat tries its body again only after an iteration that
  consumed text; an iteration that matched the empty text is kept (its groups are set)
  and ends the repetition, as in \<open>re\<close>.
\<close>

datatype greed = Greedy | Lazy

datatype regex =
    Lit string
  | Cls "char \<Rightarrow> bool"
  | Seq regex regex
  | Rep greed regex
  | Group string regex
  | Bol
  | Eol

type_synonym groups = "(string \<times> string) list"
type_synonym matcher = "string \<Rightarrow> groups \<Rightarrow> (string \<times> groups) list"

fun rep_iter :: "greed \<Rightarrow> matcher \<Rightarrow> nat \<Rightarrow> matcher" where
  "rep_iter g m 0 s e = [(s, e)]"
| "rep_iter g m (Suc k) s e =
     (let more = concat (map (\<lambda>(s', e'). if length s' < length s then rep_iter g m k s' e' else [(s', e')])
                            (m s e))
      in case g of Greedy \<Rightarrow> more @ [(s, e)] | Lazy \<Rightarrow> (s, e) # more)"

primrec rmatch :: "regex \<Rightarrow> nat \<Rightarrow> matcher" where
  "rmatch (Lit l) n = (\<lambda>s e. if prefix l s then [(drop (length l) s, e)] else [])"
| "rmatch (Cls P) n = (\<lambda>s e. case s of [] \<Rightarrow> [] | c # t \<Rightarrow> if P c then [(t, e)] else [])"
| "rmatch (Seq a b) n = (\<lambda>s e. concat (map (\<lambda>(s', e'). rmatch b n s' e') (rmatch a n s e)))"
| "rmatch (Rep g a) n = (\<lambda>s e. rep_iter g (rmatch a n) (Suc (length s)) s e)"
| "rmatch (Group nm a) n =
     (\<lambda>s e. map (\<lambda>(s', e'). (s', (nm, take (length s - length s') s) # e')) (rmatch a n s e))"
| "rmatch Bol n = (\<lambda>s e. if length s = n then [(s, e)] else [])"
| "rmatch Eol n = (\<lambda>s e. if s = [] \<or> s = [NL] then [(s, e)] else [])"

definition Plus :: "greed \<Rightarrow> regex \<Rightarrow> regex" where
  "Plus g a = Seq a (Rep g a)"

definition Dot :: regex where
  "Dot = Cls (\<lambda>c. c \<noteq> NL)"

definition Digit :: regex where
  "Digit = Cls py_isdigit"

fun Cat :: "regex list \<Rightarrow> regex" where
  "Cat [] = Lit []"
| "Cat [r] = r"
| "Cat (r # rs) = Seq r (Cat rs)"

primrec group_names :: "regex \<Rightarrow> string list" where
  "group_names (Lit l) = []"
| "group_names (Cls P) = []"
| "group_names (Seq a b) = group_names a @ group_names b"
| "group_names (Rep g a) = group_names a"
| "group_names (Group nm a) = nm # group_names a"
| "group_names Bol = []"
| "group_names Eol = []"

text \<open>
  A match object: the group names of the pattern and the groups that took part in the
  match. \<open>match_group\<close> is \<open>match.group(name)\<close>: \<open>IndexError\<close> (\<open>None\<close> here) for a name
  the pattern does not have, else \<open>Some None\<close> for a group that took no part in the match
  and \<open>Some (Some text)\<close> for a captured text.
\<close>

type_synonym re_match = "string list \<times> groups"

definition match_group :: "re_match \<Rightarrow> string \<Rightarrow> string option option" where
  "match_group m nm = (if nm \<in> set (fst m) then Some (map_of (snd m) nm) else None)"

definition match_here :: "regex \<Rightarrow> nat \<Rightarrow> string \<Rightarrow> (string \<times> re_match) option" where
  "match_here r n s =
     (case rmatch r n s [] of [] \<Rightarrow> None | (s', e) # _ \<Rightarrow> Some (s', (group_names r, e)))"

fun search_from :: "regex \<Rightarrow> nat \<Rightarrow> string \<Rightarrow> re_match option" where
  "search_from r n [] = map_option snd (match_here r n [])"
| "search_from r n (c # t) =
     (case match_here r n (c # t) of Some (s', m) \<Rightarrow> Some m | None \<Rightarrow> search_from r n t)"

definition re_search :: "regex \<Rightarrow> string \<Rightarrow> re_match option" where
  "re_search r s = search_from r (length s) s"

text \<open>
  \<open>re.sub(pattern, repl, string)\<close> with a function \<open>repl\<close>: the leftmost match at each
  position is replaced by what \<open>repl\<close> returns for it, and the scan goes on behind the
  match.
\<close>

function re_sub_from :: "regex \<Rightarrow> (re_match \<Rightarrow> error + string) \<Rightarrow> nat \<Rightarrow> string \<Rightarrow> error + string" where
  "re_sub_from r f n s =
     (case match_here r n s of
        None \<Rightarrow> (case s of [] \<Rightarrow> Inr []
                  | c # t \<Rightarrow> (case re_sub_from r f n t of Inl x \<Rightarrow> Inl x | Inr u \<Rightarrow> Inr (c # u)))
      | Some (s', m) \<Rightarrow>
          (case f m of
             Inl x \<Rightarrow> Inl x
           | Inr rep \<Rightarrow>
               if length s' < length s
               then (case re_sub_from r f n s' of Inl x \<Rightarrow> Inl x | Inr u \<Rightarrow> Inr (rep @ u))
               else (case s of [] \<Rightarrow> Inr rep
                     | c # t \<Rightarrow> (case re_sub_from r f n t of Inl x \<Rightarrow> Inl x
                                 | Inr u \<Rightarrow> Inr (rep @ c # u)))))"
  by pat_completeness auto
termination
  by (relation "measure (\<lambda>(r, f, n, s). length s)") auto

declare re_sub_from.simps [simp del]

definition re_sub :: "regex \<Rightarrow> (re_match \<Rightarrow> error + string) \<Rightarrow> string \<Rightarrow> error + string" where
  "re_sub r f s = re_sub_from r f (length s) s"

section \<open>The patterns of the script\<close>

text \<open>
  \<open>KEYPOINTS_KEY_VALUE_RE = r'("[\w_]+?_keypoints_\dd": \[)([\n\d., -e]+?)(])'\<close>.
  In the class of the second group, \<open> -e\<close> is the range from the space to \<open>e\<close>.
\<close>

definition keypoints_class :: "char \<Rightarrow> bool" where
  "keypoints_class c =
     (c = NL \<or> py_isdigit c \<or> c = CHR ''.'' \<or> c = CHR '','' \<or> (CHR '' '' \<le> c \<and> c \<le> CHR ''e''))"

definition KEYPOINTS_KEY_VALUE_RE :: regex where
  "KEYPOINTS_KEY_VALUE_RE = Cat
     [Group ''1'' (Cat [Lit [CHR 0x22], Plus Lazy (Cls (\<lambda>c. py_isword c \<or> c = CHR ''_'')),
                       Lit ''_keypoints_'', Digit, Lit [CHR ''d'', CHR 0x22, CHR '':'', CHR '' '', CHR ''['']]),
      Group ''2'' (Plus Lazy (Cls keypoints_class)),
      Group ''3'' (Lit '']'')]"

text \<open>
  \<open>FILENAME_TEMPL\<close> with the three separators that \<open>format\<close> fills in, and its three
  presets.
\<close>

definition FILENAME_TEMPL :: "regex \<Rightarrow> regex \<Rightarrow> regex \<Rightarrow> regex" where
  "FILENAME_TEMPL a b c = Cat
     [Bol, Rep Greedy (Cat [Plus Greedy Dot, Lit ''/'']),
      Group ''id'' (Plus Greedy Dot), Lit ''_'', Group ''camera'' (Plus Greedy Dot), a,
      Group ''width'' (Plus Greedy Digit), Lit ''x'', Group ''height'' (Plus Greedy Digit), b,
      Group ''frame'' (Plus Greedy Digit), c, Lit ''keypoints.json'', Eol]"

definition FILENAME_EXTRACTOR_RE :: regex where
  "FILENAME_EXTRACTOR_RE = FILENAME_TEMPL (Lit ''.'') (Lit ''.frame_'') (Lit ''.'')"

definition FILENAME_OPFILE_RE :: regex where
  "FILENAME_OPFILE_RE = FILENAME_TEMPL (Lit ''_'') (Lit ''_'') (Lit ''_'')"

definition FILENAME_OPDIR_RE :: regex where
  "FILENAME_OPDIR_RE = FILENAME_TEMPL (Lit ''_'') (Cat [Lit ''/'', Rep Greedy Dot, Lit ''_'']) (Lit ''_'')"

section \<open>Identity extraction\<close>

text \<open>
  \<open>int(s)\<close> on a string: surrounding whitespace is skipped (the ASCII whitespace and the
  two other spaces below 256, not the separators 28 to 31 that \<open>str.strip()\<close> also
  removes), one sign is allowed, and the digits may be separated by single underscores.
\<close>

definition digit_val :: "char \<Rightarrow> int" where
  "digit_val c = int (of_char c) - 48"

fun int_digits :: "string \<Rightarrow> int \<Rightarrow> int option" where
  "int_digits [] acc = Some acc"
| "int_digits (c # cs) acc =
     (if py_isdigit c then int_digits cs (10 * acc + digit_val c)
      else if c = CHR ''_'' then
        (case cs of [] \<Rightarrow> None
         | d # ds \<Rightarrow> if py_isdigit d then int_digits ds (10 * acc + digit_val d) else None)
      else None)"

definition int_unsigned :: "string \<Rightarrow> int option" where
  "int_unsigned u = (case u of [] \<Rightarrow> None
     | c # cs \<Rightarrow> if py_isdigit c then int_digits cs (digit_val c) else None)"

definition int_isspace :: "char \<Rightarrow> bool" where
  "int_isspace c = (let n = (of_char c :: nat) in (9 \<le> n \<and> n \<le> 13) \<or> n = 32 \<or> n = 133 \<or> n = 160)"

definition py_int :: "string \<Rightarrow> int option" where
  "py_int s = (case rev (dropWhile int_isspace (rev (dropWhile int_isspace s))) of
       [] \<Rightarrow> None
     | c # cs \<Rightarrow> if c = CHR ''-'' then map_option uminus (int_unsigned cs)
                else if c = CHR ''+'' then int_unsigned cs
                else int_unsigned (c # cs))"

text \<open>\<open>int(regex_match.group(name))\<close> inside \<open>try: ... except IndexError: None\<close>.\<close>

definition int_group :: "re_match \<Rightarrow> string \<Rightarrow> error + int option" where
  "int_group m nm = (case match_group m nm of
       None \<Rightarrow> Inr None
     | Some None \<Rightarrow> Inl TypeError_int_of_None
     | Some (Some s) \<Rightarrow> (case py_int s of None \<Rightarrow> Inl (ValueError_invalid_literal s)
                         | Some i \<Rightarrow> Inr (Some i)))"

definition str_group :: "re_match \<Rightarrow> string \<Rightarrow> string option" where
  "str_group m nm = (case match_group m nm of None \<Rightarrow> None | Some v \<Rightarrow> v)"

type_synonym identity = "string option \<times> string option \<times> int option \<times> int option \<times> int option"

definition extract_regex_group_fields :: "re_match \<Rightarrow> error + identity" where
  "extract_regex_group_fields regex_match =
     (let session_id = str_group regex_match ''id'';
          camera = str_group regex_match ''camera''
      in case int_group regex_match ''width'' of Inl x \<Rightarrow> Inl x | Inr width \<Rightarrow>
         (case int_group regex_match ''height'' of Inl x \<Rightarrow> Inl x | Inr height \<Rightarrow>
         (case int_group regex_match ''frame'' of Inl x \<Rightarrow> Inl x | Inr frame \<Rightarrow>
         Inr (session_id, camera, width, height, frame))))"

section \<open>Grouping\<close>

text \<open>
  Python's dictionaries keep their keys in insertion order: a dictionary is an association
  list, \<open>map_of\<close> reads it and \<open>AList.update\<close> writes it (in place for a key it has, at
  the end for a new one). The Grouping Index maps session id to camera to resolution to
  the list of \<open>(frame, filename)\<close> tuples.
\<close>

type_synonym frame_file = "int option \<times> string"
type_synonym resolution = "int option \<times> int option"
type_synonym res2frame_file_tuples = "(resolution \<times> frame_file list) list"
type_synonym cam2res2frame_file_tuples = "(string option \<times> res2frame_file_tuples) list"
type_synonym id2cam2res2frame_file_tuples = "(string option \<times> cam2res2frame_file_tuples) list"

definition py_frame :: "int option \<Rightarrow> pyobj" where
  "py_frame f = (case f of None \<Rightarrow> PyNone | Some i \<Rightarrow> PyInt i)"

definition py_frame_file :: "frame_file \<Rightarrow> pyobj" where
  "py_frame_file t = PyTuple [py_frame (fst t), PyStr (snd t)]"

text \<open>\<open>x in xs\<close> on a list: some element equals \<open>x\<close>.\<close>

definition py_in :: "pyobj \<Rightarrow> pyobj list \<Rightarrow> bool" where
  "py_in x xs = list_ex (\<lambda>y. y = x) xs"

text \<open>\<open>xs[i]\<close> on a list: a negative index counts from the end.\<close>

definition py_getitem :: "pyobj list \<Rightarrow> pyobj \<Rightarrow> error + pyobj" where
  "py_getitem xs i = (case i of
       PyInt k \<Rightarrow> (let n = int (length xs); j = (if k < 0 then n + k else k)
                   in if 0 \<le> j \<and> j < n then Inr (xs ! nat j) else Inl IndexError_list_index)
     | _ \<Rightarrow> Inl TypeError_list_index)"

text \<open>The body of the loop of \<open>group_files\<close> for a filename that matched.\<close>

definition add_frame_file ::
  "id2cam2res2frame_file_tuples \<Rightarrow> identity \<Rightarrow> string \<Rightarrow> error + id2cam2res2frame_file_tuples" where
  "add_frame_file idx k filename = (case k of (session_id, camera, width, height, frame) \<Rightarrow>
     (let resolution = (width, height);
          cam2res = (case map_of idx session_id of None \<Rightarrow> [] | Some d \<Rightarrow> d);
          res2frame = (case map_of cam2res camera of None \<Rightarrow> [] | Some d \<Rightarrow> d);
          frame_file_tuples = (case map_of res2frame resolution of None \<Rightarrow> [] | Some b \<Rightarrow> b)
      in if py_in (py_frame frame) (map py_frame_file frame_file_tuples)
         then (case py_getitem (map py_frame_file frame_file_tuples) (py_frame frame) of
                 Inl x \<Rightarrow> Inl x
               | Inr other \<Rightarrow> Inl (ValueError_multiple_files filename other))
         else Inr (AList.update session_id
                     (AList.update camera
                        (AList.update resolution (frame_file_tuples @ [(frame, filename)]) res2frame)
                        cam2res)
                     idx)))"

definition ignored_message :: "string \<Rightarrow> string" where
  "ignored_message filename = ''Ignored file not matching filename pattern: '' @ filename"

text \<open>
  The loop of \<open>group_files\<close>. \<open>isfile\<close> is \<open>os.path.isfile\<close>; the state is what was
  printed so far and the index. An exception ends the loop and keeps what was printed.
\<close>

fun group_loop ::
  "(string \<Rightarrow> bool) \<Rightarrow> regex \<Rightarrow> bool \<Rightarrow> string list \<Rightarrow> string list \<Rightarrow> id2cam2res2frame_file_tuples
     \<Rightarrow> string list \<times> (error + id2cam2res2frame_file_tuples)" where
  "group_loop isfile filename_re verbose [] out idx = (out, Inr idx)"
| "group_loop isfile filename_re verbose (filename # rest) out idx =
     (if isfile filename then
        (case re_search filename_re filename of
           Some filename_match \<Rightarrow>
             (case extract_regex_group_fields filename_match of
                Inl x \<Rightarrow> (out, Inl x)
              | Inr k \<Rightarrow>
                  (case add_frame_file idx k filename of
                     Inl x \<Rightarrow> (out, Inl x)
                   | Inr idx' \<Rightarrow> group_loop isfile filename_re verbose rest out idx'))
         | None \<Rightarrow>
             if verbose
             then group_loop isfile filename_re verbose rest (out @ [ignored_message filename]) idx
             else group_loop isfile filename_re verbose rest out idx)
      else group_loop isfile filename_re verbose rest out idx)"

text \<open>
  \<open>list.sort()\<close> on a list of \<open>(frame, filename)\<close> tuples, in Python 3: tuples are
  ordered lexicographically, two integers by value, two strings by code points, and
  \<open>None\<close> is not orderable against an integer.
\<close>

definition sort_frame_files :: "frame_file list \<Rightarrow> error + frame_file list" where
  "sort_frame_files b =
     (case those (map (\<lambda>(f, p). map_option (\<lambda>i. (i, p)) f) b) of
        Some xs \<Rightarrow> Inr (map (\<lambda>(i, p). (Some i, p)) (sort xs))
      | None \<Rightarrow> if list_all (\<lambda>t. fst t = None) b
                then Inr (map (\<lambda>p. (None, p)) (sort (map snd b)))
                else Inl TypeError_not_orderable)"

definition buckets :: "id2cam2res2frame_file_tuples \<Rightarrow> frame_file list list" where
  "buckets idx = concat (map (\<lambda>(sid, c2r). concat (map (\<lambda>(cam, r2f). map snd r2f) c2r)) idx)"

definition sort_index :: "id2cam2res2frame_file_tuples \<Rightarrow> error + id2cam2res2frame_file_tuples" where
  "sort_index idx =
     (if list_all (\<lambda>b. case sort_frame_files b of Inr b' \<Rightarrow> True | Inl x \<Rightarrow> False) (buckets idx)
      then Inr (map (\<lambda>(sid, c2r). (sid, map (\<lambda>(cam, r2f). (cam, map (\<lambda>(res, b).
                  (res, case sort_frame_files b of Inr b' \<Rightarrow> b' | Inl x \<Rightarrow> b)) r2f)) c2r)) idx)
      else Inl TypeError_not_orderable)"

definition group_files ::
  "(string \<Rightarrow> bool) \<Rightarrow> string list \<Rightarrow> regex \<Rightarrow> bool
     \<Rightarrow> string list \<times> (error + id2cam2res2frame_file_tuples)" where
  "group_files isfile filenames filename_re verbose =
     (case group_loop isfile filename_re verbose filenames [] [] of
        (out, Inl x) \<Rightarrow> (out, Inl x)
      | (out, Inr idx) \<Rightarrow> (out, sort_index idx))"

section \<open>JSON values and \<open>json.dumps\<close>\<close>

text \<open>
  The values \<open>json.dumps\<close> is given: \<open>None\<close>, booleans, integers, floats, strings, lists
  and insertion-ordered dictionaries whose keys are strings, integers or \<open>None\<close> (the
  frame indices of a recording are integer keys). A float is carried as the text
  \<open>float.__repr__\<close> gives for it, since floating point itself is not modelled.
\<close>

datatype dkey = KStr string | KInt int | KNone

datatype json =
    JNull
  | JBool bool
  | JInt int
  | JFloat string
  | JStr string
  | JArr "json list"
  | JObj "(dkey \<times> json) list"

definition digit_char :: "nat \<Rightarrow> char" where
  "digit_char n = char_of (48 + n)"

fun str_nat :: "nat \<Rightarrow> string" where
  "str_nat n = (if n < 10 then [digit_char n] else str_nat (n div 10) @ [digit_char (n mod 10)])"

declare str_nat.simps [simp del]

definition str_int :: "int \<Rightarrow> string" where
  "str_int i = (if i < 0 then CHR ''-'' # str_nat (nat (- i)) else str_nat (nat i))"

definition hex_char :: "nat \<Rightarrow> char" where
  "hex_char n = (if n < 10 then char_of (48 + n) else char_of (87 + n))"

text \<open>\<open>json.encoder.py_encode_basestring_ascii\<close>, for one character and for a string.\<close>

definition escape_char :: "char \<Rightarrow> string" where
  "escape_char c =
     (if c = CHR 0x5C then [CHR 0x5C, CHR 0x5C]
      else if c = CHR 0x22 then [CHR 0x5C, CHR 0x22]
      else if c = CHR 0x08 then [CHR 0x5C, CHR ''b'']
      else if c = CHR 0x0C then [CHR 0x5C, CHR ''f'']
      else if c = NL then [CHR 0x5C, CHR ''n'']
      else if c = CHR 0x0D then [CHR 0x5C, CHR ''r'']
      else if c = CHR 0x09 then [CHR 0x5C, CHR ''t'']
      else if CHR '' '' \<le> c \<and> c \<le> CHR ''~'' then [c]
      else [CHR 0x5C, CHR ''u'', CHR ''0'', CHR ''0'',
            hex_char (of_char c div 16), hex_char (of_char c mod 16)])"

definition encode_basestring_ascii :: "string \<Rightarrow> string" where
  "encode_basestring_ascii s = CHR 0x22 # concat (map escape_char s) @ [CHR 0x22]"

definition dumps_key :: "dkey \<Rightarrow> string" where
  "dumps_key k = (case k of
       KStr s \<Rightarrow> encode_basestring_ascii s
     | KInt i \<Rightarrow> encode_basestring_ascii (str_int i)
     | KNone \<Rightarrow> encode_basestring_ascii ''null'')"

definition newline_indent :: "nat \<Rightarrow> string" where
  "newline_indent level = NL # replicate (2 * level) CHR '' ''"

text \<open>
  \<open>json.dumps(v, sort_keys=False, indent=2)\<close> in Python 3: the item separator is a comma,
  the key separator a colon and a space, every item of a non-empty list or dictionary is
  on a line of its own, indented by two spaces per level.
\<close>

fun dumps :: "nat \<Rightarrow> json \<Rightarrow> string" where
  "dumps level JNull = ''null''"
| "dumps level (JBool b) = (if b then ''true'' else ''false'')"
| "dumps level (JInt i) = str_int i"
| "dumps level (JFloat t) = t"
| "dumps level (JStr s) = encode_basestring_ascii s"
| "dumps level (JArr xs) =
     (if xs = [] then ''[]''
      else ''['' @ newline_indent (Suc level)
           @ py_join ('','' @ newline_indent (Suc level)) (map (dumps (Suc level)) xs)
           @ newline_indent level @ '']'')"
| "dumps level (JObj kvs) =
     (if kvs = [] then ''{}''
      else ''{'' @ newline_indent (Suc level)
           @ py_join ('','' @ newline_indent (Suc level))
               (map (\<lambda>kv. dumps_key (fst kv) @ '': '' @ dumps (Suc level) (snd kv)) kvs)
           @ newline_indent level @ ''}'')"

definition json_dumps :: "json \<Rightarrow> string" where
  "json_dumps v = dumps 0 v"

section \<open>The selective-indent serializer\<close>

text \<open>\<open>'{}'.format(x)\<close> for a group of a match: \<open>None\<close> is formatted as its name.\<close>

definition format_group :: "string option option \<Rightarrow> string" where
  "format_group g = (case g of Some (Some s) \<Rightarrow> s | _ \<Rightarrow> ''None'')"

definition deindent_key_value :: "re_match \<Rightarrow> error + string" where
  "deindent_key_value m =
     (let key_string = match_group m ''1'';
          array_content_string = match_group m ''2'';
          array_close_string = match_group m ''3''
      in case array_content_string of
           Some (Some content) \<Rightarrow>
             (let deindented_content_items = map py_strip (py_split NL content);
                  deindented_content_string = py_strip (py_join '' '' deindented_content_items)
              in Inr (format_group key_string @ deindented_content_string
                      @ format_group array_close_string))
         | _ \<Rightarrow> Inl AttributeError_NoneType)"

text \<open>
  \<open>write_wrapper\<close>: the text written and the file it is written to. Creating the
  directory and opening the file are left to the file system.
\<close>

definition slimindent_json :: "json list \<Rightarrow> error + string" where
  "slimindent_json recordings =
     re_sub KEYPOINTS_KEY_VALUE_RE deindent_key_value (json_dumps (JArr recordings))"

definition write_wrapper :: "string \<Rightarrow> json list \<Rightarrow> error + string \<times> string" where
  "write_wrapper filename recordings =
     (case slimindent_json recordings of Inl x \<Rightarrow> Inl x | Inr text \<Rightarrow> Inr (filename, text))"

section \<open>Loading recordings and writing sessions\<close>

definition frame_key :: "int option \<Rightarrow> dkey" where
  "frame_key f = (case f of None \<Rightarrow> KNone | Some i \<Rightarrow> KInt i)"

text \<open>
  \<open>load\<close> is \<open>open(filename)\<close> followed by \<open>json.load\<close>: the document of a file, or the
  exception of a file that cannot be read or parsed.
\<close>

fun load_frames :: "(string \<Rightarrow> error + json) \<Rightarrow> frame_file list \<Rightarrow> (dkey \<times> json) list
    \<Rightarrow> error + (dkey \<times> json) list" where
  "load_frames load [] frame2data = Inr frame2data"
| "load_frames load ((frame, filename) # rest) frame2data =
     (case load filename of
        Inl x \<Rightarrow> Inl x
      | Inr doc \<Rightarrow> load_frames load rest (AList.update (frame_key frame) doc frame2data))"

definition load_recording ::
  "(string \<Rightarrow> error + json) \<Rightarrow> frame_file list \<Rightarrow> string option \<Rightarrow> string option
     \<Rightarrow> int option \<Rightarrow> int option \<Rightarrow> error + json" where
  "load_recording load frame_file_tuples session_id camera width height =
     (let recording_dict =
            (case session_id of None \<Rightarrow> [] | Some s \<Rightarrow> [(KStr ''id'', JStr s)])
          @ (case camera of None \<Rightarrow> [] | Some c \<Rightarrow> [(KStr ''camera'', JStr c)])
          @ (case width of None \<Rightarrow> [] | Some w \<Rightarrow> [(KStr ''width'', JInt w)])
          @ (case height of None \<Rightarrow> [] | Some h \<Rightarrow> [(KStr ''height'', JInt h)])
      in case sort_frame_files frame_file_tuples of
           Inl x \<Rightarrow> Inl x
         | Inr sorted_tuples \<Rightarrow>
             (case load_frames load sorted_tuples [] of
                Inl x \<Rightarrow> Inl x
              | Inr frame2data \<Rightarrow> Inr (JObj (recording_dict @ [(KStr ''frames'', JObj frame2data)]))))"

text \<open>\<open>sorted(d)\<close> on a dictionary whose keys are camera names or \<open>None\<close>.\<close>

definition sorted_cameras :: "string option list \<Rightarrow> error + string option list" where
  "sorted_cameras cams =
     (case those cams of
        Some xs \<Rightarrow> Inr (map Some (sort xs))
      | None \<Rightarrow> if list_all (\<lambda>c. c = None) cams then Inr cams else Inl TypeError_not_orderable)"

text \<open>
  \<open>'{}'.format(x)\<close> for a session or camera name that may be \<open>None\<close>, and the lines that
  \<open>wrap_json_frames\<close>, \<open>load_recording\<close> and \<open>write_wrapper\<close> print when \<open>verbose\<close> is set.
  \<open>', '.join(d)\<close> on the dictionary of the cameras raises \<open>TypeError\<close> when a key is \<open>None\<close>.
\<close>

definition format_opt :: "string option \<Rightarrow> string" where
  "format_opt x = (case x of None \<Rightarrow> ''None'' | Some s \<Rightarrow> s)"

definition loading_message :: "nat \<Rightarrow> string option \<Rightarrow> string option \<Rightarrow> string" where
  "loading_message n camera session_id =
     ''Loading '' @ str_nat n @ '' frames for recording '' @ [CHR 0x22] @ format_opt camera @ [CHR 0x22]
       @ '' of session '' @ [CHR 0x22] @ format_opt session_id @ [CHR 0x22]"

definition join_cameras :: "string option list \<Rightarrow> error + string" where
  "join_cameras cams =
     (case those cams of
        Some xs \<Rightarrow> Inr (py_join '', '' xs)
      | None \<Rightarrow> Inl (TypeError_sequence_item (length (takeWhile (\<lambda>c. c \<noteq> None) cams))))"

definition processing_message :: "string option \<Rightarrow> string \<Rightarrow> string" where
  "processing_message session_id cameras =
     ''Processing cameras for session '' @ [CHR 0x22] @ format_opt session_id @ [CHR 0x22] @ '': '' @ cameras"

definition write_message :: "string \<Rightarrow> string" where
  "write_message filename = ''Write wrapper file: '' @ filename"

text \<open>
  The two inner loops of \<open>wrap_json_frames\<close>, over the resolutions of a camera and over
  the sorted cameras of a session: the lines printed so far (with \<open>verbose\<close>,
  \<open>load_recording\<close> prints its line before it loads anything) and the recordings, or the
  exception that ended the loop.
\<close>

fun load_resolutions ::
  "(string \<Rightarrow> error + json) \<Rightarrow> string option \<Rightarrow> string option \<Rightarrow> bool \<Rightarrow> res2frame_file_tuples
     \<Rightarrow> string list \<Rightarrow> json list \<Rightarrow> string list \<times> (error + json list)" where
  "load_resolutions load session_id camera verbose [] out recordings = (out, Inr recordings)"
| "load_resolutions load session_id camera verbose (((width, height), frame_file_tuples) # rest) out recordings =
     (let out' = (if verbose then out @ [loading_message (length frame_file_tuples) camera session_id]
                  else out)
      in case load_recording load frame_file_tuples session_id camera width height of
           Inl x \<Rightarrow> (out', Inl x)
         | Inr recording \<Rightarrow>
             load_resolutions load session_id camera verbose rest out' (recordings @ [recording]))"

fun load_cameras ::
  "(string \<Rightarrow> error + json) \<Rightarrow> string option \<Rightarrow> bool \<Rightarrow> cam2res2frame_file_tuples
     \<Rightarrow> string option list \<Rightarrow> string list \<Rightarrow> json list \<Rightarrow> string list \<times> (error + json list)" where
  "load_cameras load session_id verbose cam2res [] out recordings = (out, Inr recordings)"
| "load_cameras load session_id verbose cam2res (camera # rest) out recordings =
     (case load_resolutions load session_id camera verbose
             (case map_of cam2res camera of None \<Rightarrow> [] | Some r \<Rightarrow> r) out recordings of
        (out', Inl x) \<Rightarrow> (out', Inl x)
      | (out', Inr recordings') \<Rightarrow> load_cameras load session_id verbose cam2res rest out' recordings')"

text \<open>\<open>os.path.join(a, b)\<close> on POSIX.\<close>

definition path_join :: "string \<Rightarrow> string \<Rightarrow> string" where
  "path_join a b =
     (if b \<noteq> [] \<and> hd b = CHR ''/'' then b
      else if a = [] \<or> last a = CHR ''/'' then a @ b
      else a @ ''/'' @ b)"

definition output_filename :: "string option \<Rightarrow> string option \<Rightarrow> string" where
  "output_filename session_id output_dir =
     (let name = (case session_id of None \<Rightarrow> ''session'' | Some s \<Rightarrow> s) @ ''.openpose.json''
      in case output_dir of None \<Rightarrow> name | Some d \<Rightarrow> path_join d name)"

text \<open>
  The loop of \<open>wrap_json_frames\<close> over the sessions of the index: the lines printed so
  far, the files written so far, each with its text, and the exception that ended the
  loop, if any. With \<open>verbose\<close> the loop first prints the cameras of the session, joined
  by \<open>', '\<close>, and \<open>write_wrapper\<close> prints the name of the file before it writes it.
\<close>

fun write_sessions ::
  "(string \<Rightarrow> error + json) \<Rightarrow> string option \<Rightarrow> bool \<Rightarrow> id2cam2res2frame_file_tuples
     \<Rightarrow> string list \<Rightarrow> (string \<times> string) list
     \<Rightarrow> string list \<times> (string \<times> string) list \<times> error option" where
  "write_sessions load output_dir verbose [] out written = (out, written, None)"
| "write_sessions load output_dir verbose ((session_id, cam2res) # rest) out written =
     (case (if verbose
            then (case join_cameras (map fst cam2res) of
                    Inl x \<Rightarrow> Inl x
                  | Inr cameras \<Rightarrow> Inr (out @ [processing_message session_id cameras]))
            else Inr out) of
        Inl x \<Rightarrow> (out, written, Some x)
      | Inr out1 \<Rightarrow>
          (case sorted_cameras (map fst cam2res) of
             Inl x \<Rightarrow> (out1, written, Some x)
           | Inr cameras \<Rightarrow>
               (case load_cameras load session_id verbose cam2res cameras out1 [] of
                  (out2, Inl x) \<Rightarrow> (out2, written, Some x)
                | (out2, Inr recordings) \<Rightarrow>
                    (let out3 = (if verbose
                                 then out2 @ [write_message (output_filename session_id output_dir)]
                                 else out2)
                     in case write_wrapper (output_filename session_id output_dir) recordings of
                          Inl x \<Rightarrow> (out3, written, Some x)
                        | Inr w \<Rightarrow> write_sessions load output_dir verbose rest out3 (written @ [w])))))"

text \<open>
  \<open>wrap_json_frames\<close>: the lines printed, the files written and the exception that ended
  the run, if any. The warnings of \<open>sanity_check_groups\<close> go to the error stream and change
  neither.
\<close>

definition wrap_json_frames ::
  "(string \<Rightarrow> bool) \<Rightarrow> (string \<Rightarrow> error + json) \<Rightarrow> string list \<Rightarrow> string option \<Rightarrow> regex \<Rightarrow> bool
     \<Rightarrow> string list \<times> (string \<times> string) list \<times> error option" where
  "wrap_json_frames isfile load input_filenames output_dir filename_re verbose =
     (case group_files isfile input_filenames filename_re verbose of
        (out, Inl x) \<Rightarrow> (out, [], Some x)
      | (out, Inr idx) \<Rightarrow> write_sessions load output_dir verbose idx out [])"

section \<open>Patterns used in the examples\<close>

text \<open>
  Two custom patterns a caller can pass with \<open>--regex\<close>:
  \<open>(?P<width>.+)x(?P<frame>.+)\<close>, whose numeric groups accept any text, and
  \<open>(?P<id>a+)*(?P<width>\d+)*(?:x(?P<height>\d+))*(?:f(?P<frame>\d+))*\.json\<close>, whose
  groups are optional.
\<close>

definition loose_re :: regex where
  "loose_re = Cat [Group ''width'' (Plus Greedy Dot), Lit ''x'', Group ''frame'' (Plus Greedy Dot)]"

definition optional_re :: regex where
  "optional_re = Cat [Rep Greedy (Group ''id'' (Plus Greedy (Cls (\<lambda>c. c = CHR ''a'')))),
                      Rep Greedy (Group ''width'' (Plus Greedy Digit)),
                      Rep Greedy (Cat [Lit ''x'', Group ''height'' (Plus Greedy Digit)]),
                      Rep Greedy (Cat [Lit ''f'', Group ''frame'' (Plus Greedy Digit)]),
                      Lit ''.json'']"

section \<open>Extraction: the errors of the numeric groups\<close>

lemma int_group_Inl_iff:
  "int_group m nm = Inl x \<longleftrightarrow>
     (match_group m nm = Some None \<and> x = TypeError_int_of_None)
   \<or> (\<exists>s. match_group m nm = Some (Some s) \<and> py_int s = None \<and> x = ValueError_invalid_literal s)"
  by (auto simp: int_group_def split: option.splits)

lemma extract_Inl_iff:
  "extract_regex_group_fields m = Inl x \<longleftrightarrow>
     int_group m ''width'' = Inl x
   \<or> (\<exists>w. int_group m ''width'' = Inr w \<and> int_group m ''height'' = Inl x)
   \<or> (\<exists>w h. int_group m ''width'' = Inr w \<and> int_group m ''height'' = Inr h
        \<and> int_group m ''frame'' = Inl x)"
  by (auto simp: extract_regex_group_fields_def split: sum.splits)

lemma extract_fails_if_group_fails:
  assumes "nm = ''width'' \<or> nm = ''height'' \<or> nm = ''frame''" and "int_group m nm = Inl y"
  shows "\<exists>x nm'. (nm' = ''width'' \<or> nm' = ''height'' \<or> nm' = ''frame'')
           \<and> int_group m nm' = Inl x \<and> extract_regex_group_fields m = Inl x"
proof (cases "int_group m ''width''")
  case (Inl x)
  then show ?thesis by (auto simp: extract_Inl_iff)
next
  case w: (Inr w)
  show ?thesis
  proof (cases "int_group m ''height''")
    case (Inl x)
    with w show ?thesis by (auto simp: extract_Inl_iff)
  next
    case h: (Inr h)
    from assms w h have "int_group m ''frame'' = Inl y" by auto
    with w h show ?thesis by (auto simp: extract_Inl_iff)
  qed
qed

section \<open>The loop of \<open>group_files\<close>\<close>

lemma py_in_frame_file [simp]: "py_in (py_frame f) (map py_frame_file b) = False"
  by (auto simp add: py_in_def py_frame_file_def py_frame_def list_ex_iff split: option.splits)

lemma group_loop_skip:
  "\<not> isfile p \<Longrightarrow>
   group_loop isfile re v (xs @ p # ys) out idx = group_loop isfile re v (xs @ ys) out idx"
  by (induction xs arbitrary: out idx) (auto split: option.splits sum.splits)

lemma group_loop_raises:
  assumes "p \<in> set fs" "isfile p" "re_search re p = Some m" "extract_regex_group_fields m = Inl x"
  shows "\<exists>out' e. group_loop isfile re v fs out idx = (out', Inl e)"
  using assms(1)
proof (induction fs arbitrary: out idx)
  case Nil
  then show ?case by simp
next
  case (Cons q fs)
  show ?case
  proof (cases "q = p")
    case True
    with assms(2-4) show ?thesis by simp
  next
    case False
    with Cons.prems have "p \<in> set fs" by simp
    from Cons.IH[OF this] show ?thesis
      by (auto split: option.splits sum.splits)
  qed
qed

lemma group_loop_first_error:
  assumes "group_loop isfile re v xs out idx = (out', Inr idx')"
    and "isfile p" "re_search re p = Some m" "extract_regex_group_fields m = Inl x"
  shows "group_loop isfile re v (xs @ p # ys) out idx = (out', Inl x)"
  using assms(1)
proof (induction xs arbitrary: out idx)
  case Nil
  with assms(2-4) show ?case by simp
next
  case (Cons q xs)
  then show ?case
    by (auto split: option.splits sum.splits if_splits)
qed

section \<open>The serializer raises nothing\<close>

lemma keypoints_groups_bound:
  "(s', e') \<in> set (rmatch KEYPOINTS_KEY_VALUE_RE n s e) \<Longrightarrow> \<exists>t. map_of e' ''2'' = Some t"
  by (auto simp: KEYPOINTS_KEY_VALUE_RE_def)

lemma deindent_total:
  assumes "match_here KEYPOINTS_KEY_VALUE_RE n s = Some (s', m)"
  shows "\<exists>t. deindent_key_value m = Inr t"
proof -
  from assms obtain e where m: "m = (group_names KEYPOINTS_KEY_VALUE_RE, e)"
    and "(s', e) \<in> set (rmatch KEYPOINTS_KEY_VALUE_RE n s [])"
    by (auto simp: match_here_def split: list.splits)
  then obtain t where "map_of e ''2'' = Some t" using keypoints_groups_bound by blast
  with m show ?thesis
    by (simp add: deindent_key_value_def match_group_def KEYPOINTS_KEY_VALUE_RE_def Plus_def Digit_def)
qed

lemma re_sub_from_total:
  "\<exists>t. re_sub_from KEYPOINTS_KEY_VALUE_RE deindent_key_value n s = Inr t"
proof (induction "length s" arbitrary: s rule: less_induct)
  case less
  show ?case
  proof (cases "match_here KEYPOINTS_KEY_VALUE_RE n s")
    case None
    show ?thesis
    proof (cases s)
      case Nil
      with None show ?thesis by (subst re_sub_from.simps) simp
    next
      case (Cons c t)
      with less[of t] obtain u where "re_sub_from KEYPOINTS_KEY_VALUE_RE deindent_key_value n t = Inr u" by auto
      with None Cons show ?thesis by (subst re_sub_from.simps) simp
    qed
  next
    case (Some a)
    obtain s' m where a: "a = (s', m)" by (cases a)
    with Some deindent_total obtain rep where rep: "deindent_key_value m = Inr rep" by blast
    show ?thesis
    proof (cases "length s' < length s")
      case True
      with less[of s'] obtain u where "re_sub_from KEYPOINTS_KEY_VALUE_RE deindent_key_value n s' = Inr u" by auto
      with Some a rep True show ?thesis by (subst re_sub_from.simps) simp
    next
      case False
      show ?thesis
      proof (cases s)
        case Nil
        with Some a rep False show ?thesis by (subst re_sub_from.simps) simp
      next
        case (Cons c t)
        with less[of t] obtain u where "re_sub_from KEYPOINTS_KEY_VALUE_RE deindent_key_value n t = Inr u" by auto
        with Some a rep False Cons show ?thesis by (subst re_sub_from.simps) simp
      qed
    qed
  qed
qed

lemma slimindent_json_total: "\<exists>t. slimindent_json rs = Inr t"
  by (simp add: slimindent_json_def re_sub_def re_sub_from_total)

section \<open>Claims on extraction and grouping\<close>

text \<open>
  C9: a path of the input list that is not an existing regular file is skipped by
  \<open>group_files\<close>: the index, what is printed (also in verbose mode), the exception
  raised, if any, and the files \<open>wrap_json_frames\<close> writes are those of the input list
  without that path. The pattern is never tried on it and it is never loaded.
\<close>

theorem non_files_are_skipped:
  assumes "\<not> isfile p"
  shows "group_files isfile (xs @ p # ys) filename_re verbose
           = group_files isfile (xs @ ys) filename_re verbose
       \<and> wrap_json_frames isfile load (xs @ p # ys) output_dir filename_re verbose
           = wrap_json_frames isfile load (xs @ ys) output_dir filename_re verbose"
  using assms by (simp add: group_files_def wrap_json_frames_def group_loop_skip)

theorem non_files_are_skipped_witness:
  "\<not> (\<lambda>q. q \<noteq> ''1xab'') ''1xab''
   \<and> group_files (\<lambda>q. q \<noteq> ''1xab'') [''bad'', ''1xab'', ''3x4''] loose_re True
       = ([''Ignored file not matching filename pattern: bad''],
          Inr [(None, [(None, [((Some 3, None), [(Some 4, ''3x4'')])])])])
   \<and> group_files (\<lambda>q. True) [''bad'', ''1xab'', ''3x4''] loose_re True
       = ([''Ignored file not matching filename pattern: bad''], Inl (ValueError_invalid_literal ''ab''))"
proof -
  have h: "\<not> (\<lambda>q. q \<noteq> ''1xab'') ''1xab''" by simp
  have e: "group_files (\<lambda>q. q \<noteq> ''1xab'') ([''bad''] @ [''3x4'']) loose_re True
       = ([''Ignored file not matching filename pattern: bad''],
          Inr [(None, [(None, [((Some 3, None), [(Some 4, ''3x4'')])])])])"
    by code_simp
  have f: "group_files (\<lambda>q. True) [''bad'', ''1xab'', ''3x4''] loose_re True
       = ([''Ignored file not matching filename pattern: bad''], Inl (ValueError_invalid_literal ''ab''))"
    by code_simp
  from non_files_are_skipped[of "\<lambda>q. q \<noteq> ''1xab''" "''1xab''" "[''bad'']" "[''3x4'']" loose_re True] h e f
  show ?thesis by simp
qed

text \<open>
  C10: a numeric group (\<open>width\<close>, \<open>height\<close>, \<open>frame\<close>) that the pattern has but that took
  no part in the match makes extraction raise the \<open>TypeError\<close> of \<open>int(None)\<close> (for
  \<open>height\<close> and \<open>frame\<close>: once the numeric groups before it were read), while an \<open>id\<close> or
  \<open>camera\<close> group that took no part in the match is returned as \<open>None\<close>.
\<close>

theorem unmatched_numeric_group_raises_TypeError:
  "(match_group m ''width'' = Some None \<longrightarrow> extract_regex_group_fields m = Inl TypeError_int_of_None)
 \<and> (int_group m ''width'' = Inr w \<and> match_group m ''height'' = Some None
      \<longrightarrow> extract_regex_group_fields m = Inl TypeError_int_of_None)
 \<and> (int_group m ''width'' = Inr w \<and> int_group m ''height'' = Inr h \<and> match_group m ''frame'' = Some None
      \<longrightarrow> extract_regex_group_fields m = Inl TypeError_int_of_None)
 \<and> (int_group m ''width'' = Inr w \<and> int_group m ''height'' = Inr h \<and> int_group m ''frame'' = Inr f
      \<longrightarrow> (\<exists>session_id camera.
             extract_regex_group_fields m = Inr (session_id, camera, w, h, f)
           \<and> (match_group m ''id'' = Some None \<longrightarrow> session_id = None)
           \<and> (match_group m ''camera'' = Some None \<longrightarrow> camera = None)))"
  by (simp add: extract_regex_group_fields_def int_group_def str_group_def)

theorem unmatched_numeric_group_raises_TypeError_witness:
  "re_search optional_re ''aa.json'' = Some ([''id'', ''width'', ''height'', ''frame''], [(''id'', ''aa'')])
 \<and> extract_regex_group_fields ([''id'', ''width'', ''height'', ''frame''], [(''id'', ''aa'')])
       = Inl TypeError_int_of_None
 \<and> re_search optional_re ''1.json'' = Some ([''id'', ''width'', ''height'', ''frame''], [(''width'', ''1'')])
 \<and> extract_regex_group_fields ([''id'', ''width'', ''height'', ''frame''], [(''width'', ''1'')])
       = Inl TypeError_int_of_None
 \<and> re_search optional_re ''1x2.json''
       = Some ([''id'', ''width'', ''height'', ''frame''], [(''height'', ''2''), (''width'', ''1'')])
 \<and> extract_regex_group_fields ([''id'', ''width'', ''height'', ''frame''], [(''height'', ''2''), (''width'', ''1'')])
       = Inl TypeError_int_of_None
 \<and> re_search optional_re ''1x2f3.json''
       = Some ([''id'', ''width'', ''height'', ''frame''], [(''frame'', ''3''), (''height'', ''2''), (''width'', ''1'')])
 \<and> extract_regex_group_fields
         ([''id'', ''width'', ''height'', ''frame''], [(''frame'', ''3''), (''height'', ''2''), (''width'', ''1'')])
       = Inr (None, None, Some 1, Some 2, Some 3)"
proof -
  let ?ns = "[''id'', ''width'', ''height'', ''frame'']"
  have s1: "re_search optional_re ''aa.json'' = Some (?ns, [(''id'', ''aa'')])" by code_simp
  have s2: "re_search optional_re ''1.json'' = Some (?ns, [(''width'', ''1'')])" by code_simp
  have s3: "re_search optional_re ''1x2.json'' = Some (?ns, [(''height'', ''2''), (''width'', ''1'')])"
    by code_simp
  have s4: "re_search optional_re ''1x2f3.json''
      = Some (?ns, [(''frame'', ''3''), (''height'', ''2''), (''width'', ''1'')])"
    by code_simp
  have g1: "match_group (?ns, [(''id'', ''aa'')]) ''width'' = Some None"
    by (simp add: match_group_def)
  have g2: "int_group (?ns, [(''width'', ''1'')]) ''width'' = Inr (Some 1)
          \<and> match_group (?ns, [(''width'', ''1'')]) ''height'' = Some None"
    by code_simp
  have g3: "int_group (?ns, [(''height'', ''2''), (''width'', ''1'')]) ''width'' = Inr (Some 1)
          \<and> int_group (?ns, [(''height'', ''2''), (''width'', ''1'')]) ''height'' = Inr (Some 2)
          \<and> match_group (?ns, [(''height'', ''2''), (''width'', ''1'')]) ''frame'' = Some None"
    by code_simp
  have g4: "int_group (?ns, [(''frame'', ''3''), (''height'', ''2''), (''width'', ''1'')]) ''width'' = Inr (Some 1)
          \<and> int_group (?ns, [(''frame'', ''3''), (''height'', ''2''), (''width'', ''1'')]) ''height'' = Inr (Some 2)
          \<and> int_group (?ns, [(''frame'', ''3''), (''height'', ''2''), (''width'', ''1'')]) ''frame'' = Inr (Some 3)
          \<and> match_group (?ns, [(''frame'', ''3''), (''height'', ''2''), (''width'', ''1'')]) ''id'' = Some None
          \<and> match_group (?ns, [(''frame'', ''3''), (''height'', ''2''), (''width'', ''1'')]) ''camera'' = None"
    by code_simp
  have e1: "extract_regex_group_fields (?ns, [(''id'', ''aa'')]) = Inl TypeError_int_of_None"
    using unmatched_numeric_group_raises_TypeError[of "(?ns, [(''id'', ''aa'')])"] g1 by blast
  have e2: "extract_regex_group_fields (?ns, [(''width'', ''1'')]) = Inl TypeError_int_of_None"
    using unmatched_numeric_group_raises_TypeError[of "(?ns, [(''width'', ''1'')])" "Some 1"] g2 by blast
  have e3: "extract_regex_group_fields (?ns, [(''height'', ''2''), (''width'', ''1'')]) = Inl TypeError_int_of_None"
    using unmatched_numeric_group_raises_TypeError[of "(?ns, [(''height'', ''2''), (''width'', ''1'')])" "Some 1" "Some 2"] g3
    by blast
  have e4: "extract_regex_group_fields (?ns, [(''frame'', ''3''), (''height'', ''2''), (''width'', ''1'')])
      = Inr (None, None, Some 1, Some 2, Some 3)"
  proof -
    from unmatched_numeric_group_raises_TypeError[of "(?ns, [(''frame'', ''3''), (''height'', ''2''), (''width'', ''1'')])" "Some 1" "Some 2" "Some 3"] g4
    obtain session_id camera where
      "extract_regex_group_fields (?ns, [(''frame'', ''3''), (''height'', ''2''), (''width'', ''1'')])
         = Inr (session_id, camera, Some 1, Some 2, Some 3)" and "session_id = None"
      by blast
    moreover have "str_group (?ns, [(''frame'', ''3''), (''height'', ''2''), (''width'', ''1'')]) ''camera'' = None"
      by (simp add: str_group_def match_group_def)
    ultimately show ?thesis
      by (simp add: extract_regex_group_fields_def split: sum.splits)
  qed
  from s1 s2 s3 s4 e1 e2 e3 e4 show ?thesis by blast
qed

text \<open>
  C8, as the spec states it, fails: the exception of a numeric group whose text is not a
  number is the \<open>ValueError\<close> of \<open>int()\<close>, formatted from the rejected text alone. Under the
  pattern \<open>(?P<width>.+)x(?P<frame>.+)\<close> the path \<open>abx1\<close> (bad \<open>width\<close>) and the path
  \<open>1xab\<close> (bad \<open>frame\<close>) end the run with the same exception, which therefore names
  neither the field nor the path.
\<close>

theorem invalid_literal_error_names_neither_field_nor_path:
  "re_search loose_re ''abx1'' = Some ([''width'', ''frame''], [(''frame'', ''1''), (''width'', ''ab'')])
 \<and> re_search loose_re ''1xab'' = Some ([''width'', ''frame''], [(''frame'', ''ab''), (''width'', ''1'')])
 \<and> wrap_json_frames (\<lambda>p. True) (\<lambda>p. Inr JNull) [''abx1''] None loose_re False
       = ([], [], Some (ValueError_invalid_literal ''ab''))
 \<and> wrap_json_frames (\<lambda>p. True) (\<lambda>p. Inr JNull) [''1xab''] None loose_re False
       = ([], [], Some (ValueError_invalid_literal ''ab''))"
proof -
  have "re_search loose_re ''abx1'' = Some ([''width'', ''frame''], [(''frame'', ''1''), (''width'', ''ab'')])"
    by code_simp
  moreover have "re_search loose_re ''1xab'' = Some ([''width'', ''frame''], [(''frame'', ''ab''), (''width'', ''1'')])"
    by code_simp
  moreover have "group_files (\<lambda>p. True) [''abx1''] loose_re False = ([], Inl (ValueError_invalid_literal ''ab''))"
    by code_simp
  moreover have "group_files (\<lambda>p. True) [''1xab''] loose_re False = ([], Inl (ValueError_invalid_literal ''ab''))"
    by code_simp
  ultimately show ?thesis by (simp add: wrap_json_frames_def)
qed

text \<open>
  C8, amended: when a path of the input list is an existing file, matches the pattern,
  and a numeric group (\<open>width\<close>, \<open>height\<close>, \<open>frame\<close>) captured a text that \<open>int()\<close> rejects,
  extraction raises an exception, which is the \<open>ValueError\<close> of \<open>int()\<close> on a rejected
  text of one of the numeric groups (its message quotes that text only) or the
  \<open>TypeError\<close> of a numeric group that took no part in the match; the run ends with an
  exception and writes no file; and when the paths before it went into the index, the
  exception of the run is that of the extraction.
\<close>

theorem non_numeric_group_aborts:
  assumes "isfile p" and "re_search filename_re p = Some m"
    and "nm = ''width'' \<or> nm = ''height'' \<or> nm = ''frame''"
    and "match_group m nm = Some (Some s)" and "py_int s = None"
    and "p \<in> set input_filenames"
  shows "(\<exists>x. extract_regex_group_fields m = Inl x
            \<and> (x = TypeError_int_of_None
               \<or> (\<exists>t nm'. (nm' = ''width'' \<or> nm' = ''height'' \<or> nm' = ''frame'')
                     \<and> match_group m nm' = Some (Some t) \<and> py_int t = None
                     \<and> x = ValueError_invalid_literal t)))
       \<and> (\<exists>out e. wrap_json_frames isfile load input_filenames output_dir filename_re verbose
                     = (out, [], Some e))
       \<and> (\<forall>xs ys out idx x. input_filenames = xs @ p # ys
             \<and> group_loop isfile filename_re verbose xs [] [] = (out, Inr idx)
             \<and> extract_regex_group_fields m = Inl x
            \<longrightarrow> wrap_json_frames isfile load input_filenames output_dir filename_re verbose
                  = (out, [], Some x))"
proof -
  from assms(4,5) have "int_group m nm = Inl (ValueError_invalid_literal s)"
    by (simp add: int_group_def)
  from extract_fails_if_group_fails[OF assms(3) this]
  obtain x nm' where nm': "nm' = ''width'' \<or> nm' = ''height'' \<or> nm' = ''frame''"
    and ig: "int_group m nm' = Inl x" and ex: "extract_regex_group_fields m = Inl x"
    by blast
  from ig have "x = TypeError_int_of_None
      \<or> (\<exists>t. match_group m nm' = Some (Some t) \<and> py_int t = None \<and> x = ValueError_invalid_literal t)"
    by (auto simp: int_group_Inl_iff)
  with nm' ex have A: "\<exists>x. extract_regex_group_fields m = Inl x
            \<and> (x = TypeError_int_of_None
               \<or> (\<exists>t nm'. (nm' = ''width'' \<or> nm' = ''height'' \<or> nm' = ''frame'')
                     \<and> match_group m nm' = Some (Some t) \<and> py_int t = None
                     \<and> x = ValueError_invalid_literal t))"
    by blast
  from group_loop_raises[of p input_filenames isfile filename_re m x verbose "[]" "[]"] assms(6,1,2) ex
  obtain out e where "group_loop isfile filename_re verbose input_filenames [] [] = (out, Inl e)"
    by blast
  then have B: "\<exists>out e. wrap_json_frames isfile load input_filenames output_dir filename_re verbose
                     = (out, [], Some e)"
    by (simp add: wrap_json_frames_def group_files_def)
  have C: "\<forall>xs ys out idx x. input_filenames = xs @ p # ys
             \<and> group_loop isfile filename_re verbose xs [] [] = (out, Inr idx)
             \<and> extract_regex_group_fields m = Inl x
            \<longrightarrow> wrap_json_frames isfile load input_filenames output_dir filename_re verbose
                  = (out, [], Some x)"
    using group_loop_first_error[of isfile filename_re verbose _ "[]" "[]" _ _ p m] assms(1,2)
    by (auto simp: wrap_json_frames_def group_files_def)
  from A B C show ?thesis by blast
qed

theorem non_numeric_group_aborts_witness:
  "re_search loose_re ''1xab'' = Some ([''width'', ''frame''], [(''frame'', ''ab''), (''width'', ''1'')])
 \<and> match_group ([''width'', ''frame''], [(''frame'', ''ab''), (''width'', ''1'')]) ''frame'' = Some (Some ''ab'')
 \<and> py_int ''ab'' = None
 \<and> extract_regex_group_fields ([''width'', ''frame''], [(''frame'', ''ab''), (''width'', ''1'')])
      = Inl (ValueError_invalid_literal ''ab'')
 \<and> wrap_json_frames (\<lambda>p. True) (\<lambda>p. Inr JNull) [''3x4'', ''1xab'', ''5x6''] None loose_re False
      = ([], [], Some (ValueError_invalid_literal ''ab''))"
proof -
  let ?m = "([''width'', ''frame''], [(''frame'', ''ab''), (''width'', ''1'')])"
  have s: "re_search loose_re ''1xab'' = Some ?m" by code_simp
  have g: "match_group ?m ''frame'' = Some (Some ''ab'')" by (simp add: match_group_def)
  have i: "py_int ''ab'' = None" by code_simp
  have e: "extract_regex_group_fields ?m = Inl (ValueError_invalid_literal ''ab'')" by code_simp
  have l: "group_loop (\<lambda>p. True) loose_re False [''3x4''] [] []
      = ([], Inr [(None, [(None, [((Some 3, None), [(Some 4, ''3x4'')])])])])"
    by code_simp
  have "wrap_json_frames (\<lambda>p. True) (\<lambda>p. Inr JNull) [''3x4'', ''1xab'', ''5x6''] None loose_re False
      = ([], [], Some (ValueError_invalid_literal ''ab''))"
    using non_numeric_group_aborts[of "\<lambda>p. True" "''1xab''" loose_re ?m "''frame''" "''ab''"
        "[''3x4'', ''1xab'', ''5x6'']" "\<lambda>p. Inr JNull" None False] s g i e l
    by (auto simp: append_eq_Cons_conv Cons_eq_append_conv)
  with s g i e show ?thesis by blast
qed

text \<open>
  C1 fails on the code: with the default pattern, the existing files
  \<open>A_c_6x4_0_keypoints.json\<close> and \<open>x/A_c_6x4_0_keypoints.json\<close> have the same session,
  camera, resolution and frame. \<open>group_files\<close> raises nothing and keeps both in one
  bucket (\<open>frame in frame_file_tuples\<close> compares the frame with the tuples of the list),
  the recording keeps the document of the file loaded last under frame 0, and
  \<open>wrap_json_frames\<close> writes \<open>A.openpose.json\<close> without an exception.
\<close>

theorem duplicate_frame_is_not_detected:
  "group_files (\<lambda>p. True) [''A_c_6x4_0_keypoints.json'', ''x/A_c_6x4_0_keypoints.json'']
       FILENAME_OPFILE_RE False
     = ([], Inr [(Some ''A'', [(Some ''c'', [((Some 6, Some 4),
          [(Some 0, ''A_c_6x4_0_keypoints.json''), (Some 0, ''x/A_c_6x4_0_keypoints.json'')])])])])
 \<and> load_recording (\<lambda>p. if p = ''A_c_6x4_0_keypoints.json'' then Inr (JInt 1) else Inr (JInt 2))
       [(Some 0, ''A_c_6x4_0_keypoints.json''), (Some 0, ''x/A_c_6x4_0_keypoints.json'')]
       (Some ''A'') (Some ''c'') (Some 6) (Some 4)
     = Inr (JObj [(KStr ''id'', JStr ''A''), (KStr ''camera'', JStr ''c''), (KStr ''width'', JInt 6),
                  (KStr ''height'', JInt 4), (KStr ''frames'', JObj [(KInt 0, JInt 2)])])
 \<and> (\<exists>body. wrap_json_frames (\<lambda>p. True)
       (\<lambda>p. if p = ''A_c_6x4_0_keypoints.json'' then Inr (JInt 1) else Inr (JInt 2))
       [''A_c_6x4_0_keypoints.json'', ''x/A_c_6x4_0_keypoints.json''] None FILENAME_OPFILE_RE False
     = ([], [(''A.openpose.json'', body)], None))"
proof -
  let ?load = "\<lambda>p. if p = ''A_c_6x4_0_keypoints.json'' then Inr (JInt 1) else Inr (JInt 2)"
  let ?rec = "JObj [(KStr ''id'', JStr ''A''), (KStr ''camera'', JStr ''c''), (KStr ''width'', JInt 6),
                  (KStr ''height'', JInt 4), (KStr ''frames'', JObj [(KInt 0, JInt 2)])]"
  have g: "group_files (\<lambda>p. True) [''A_c_6x4_0_keypoints.json'', ''x/A_c_6x4_0_keypoints.json'']
       FILENAME_OPFILE_RE False
     = ([], Inr [(Some ''A'', [(Some ''c'', [((Some 6, Some 4),
          [(Some 0, ''A_c_6x4_0_keypoints.json''), (Some 0, ''x/A_c_6x4_0_keypoints.json'')])])])])"
    by code_simp
  have r: "load_recording ?load
       [(Some 0, ''A_c_6x4_0_keypoints.json''), (Some 0, ''x/A_c_6x4_0_keypoints.json'')]
       (Some ''A'') (Some ''c'') (Some 6) (Some 4) = Inr ?rec"
    by code_simp
  have c: "sorted_cameras [Some ''c''] = Inr [Some ''c'']" by code_simp
  obtain body where t: "slimindent_json [?rec] = Inr body"
    using slimindent_json_total by blast
  have "wrap_json_frames (\<lambda>p. True) ?load
       [''A_c_6x4_0_keypoints.json'', ''x/A_c_6x4_0_keypoints.json''] None FILENAME_OPFILE_RE False
     = ([], [(''A.openpose.json'', body)], None)"
    by (simp add: wrap_json_frames_def g c r t write_wrapper_def output_filename_def del: One_nat_def)
  with g r show ?thesis by blast
qed

section \<open>The completed index\<close>

text \<open>
  \<open>entries\<close> lists what the index holds, each \<open>(frame, filename)\<close> tuple with the keys
  it is filed under; \<open>wf_index\<close> says that no dictionary of the index has a key twice;
  \<open>path_identity\<close> is the identity that the loop of \<open>group_files\<close> computes for a path
  (\<open>None\<close> when the path does not match or extraction raises).
\<close>

definition bucket_entries ::
  "string option \<Rightarrow> string option \<Rightarrow> resolution \<Rightarrow> frame_file list \<Rightarrow> (identity \<times> string) list" where
  "bucket_entries sid cam res b = map (\<lambda>t. ((sid, cam, fst res, snd res, fst t), snd t)) b"

definition camera_entries ::
  "string option \<Rightarrow> string option \<Rightarrow> res2frame_file_tuples \<Rightarrow> (identity \<times> string) list" where
  "camera_entries sid cam r2f = concat (map (\<lambda>rb. bucket_entries sid cam (fst rb) (snd rb)) r2f)"

definition session_entries ::
  "string option \<Rightarrow> cam2res2frame_file_tuples \<Rightarrow> (identity \<times> string) list" where
  "session_entries sid c2r = concat (map (\<lambda>cr. camera_entries sid (fst cr) (snd cr)) c2r)"

definition entries :: "id2cam2res2frame_file_tuples \<Rightarrow> (identity \<times> string) list" where
  "entries idx = concat (map (\<lambda>sc. session_entries (fst sc) (snd sc)) idx)"

definition wf_index :: "id2cam2res2frame_file_tuples \<Rightarrow> bool" where
  "wf_index idx = (distinct (map fst idx)
     \<and> list_all (\<lambda>sc. distinct (map fst (snd sc))
          \<and> list_all (\<lambda>cr. distinct (map fst (snd cr))) (snd sc)) idx)"

definition path_identity :: "regex \<Rightarrow> string \<Rightarrow> identity option" where
  "path_identity filename_re p = (case re_search filename_re p of
       None \<Rightarrow> None
     | Some m \<Rightarrow> (case extract_regex_group_fields m of Inl x \<Rightarrow> None | Inr k \<Rightarrow> Some k))"

definition strictly_ascending :: "int option list \<Rightarrow> bool" where
  "strictly_ascending fs =
     sorted_wrt (\<lambda>a b. case a of None \<Rightarrow> False | Some x \<Rightarrow> (case b of None \<Rightarrow> False | Some y \<Rightarrow> x < y)) fs"

lemma mset_concat_update:
  assumes "F k z = []"
  shows "mset (concat (map (\<lambda>kv. F (fst kv) (snd kv)) (AList.update k v d)))
           + mset (F k (case map_of d k of None \<Rightarrow> z | Some u \<Rightarrow> u))
       = mset (concat (map (\<lambda>kv. F (fst kv) (snd kv)) d)) + mset (F k v)"
  using assms by (induction d) (auto split: if_splits)

lemma add_frame_file_Inr:
  "add_frame_file idx (sid, cam, w, h, f) p =
     Inr (AList.update sid
            (AList.update cam
               (AList.update (w, h)
                  ((case map_of (case map_of (case map_of idx sid of None \<Rightarrow> [] | Some d \<Rightarrow> d) cam of
                                   None \<Rightarrow> [] | Some d \<Rightarrow> d) (w, h) of None \<Rightarrow> [] | Some b \<Rightarrow> b) @ [(f, p)])
                  (case map_of (case map_of idx sid of None \<Rightarrow> [] | Some d \<Rightarrow> d) cam of
                     None \<Rightarrow> [] | Some d \<Rightarrow> d))
               (case map_of idx sid of None \<Rightarrow> [] | Some d \<Rightarrow> d))
            idx)"
  by (simp add: add_frame_file_def Let_def)

lemma entries_add_frame_file:
  assumes "add_frame_file idx (sid, cam, w, h, f) p = Inr idx'"
  shows "mset (entries idx') = mset (entries idx) + {#((sid, cam, w, h, f), p)#}"
proof -
  define c2r where "c2r = (case map_of idx sid of None \<Rightarrow> [] | Some d \<Rightarrow> d)"
  define r2f where "r2f = (case map_of c2r cam of None \<Rightarrow> [] | Some d \<Rightarrow> d)"
  define b where "b = (case map_of r2f (w, h) of None \<Rightarrow> [] | Some b \<Rightarrow> b)"
  define r2f' where "r2f' = AList.update (w, h) (b @ [(f, p)]) r2f"
  define c2r' where "c2r' = AList.update cam r2f' c2r"
  from assms have idx': "idx' = AList.update sid c2r' idx"
    by (simp add: add_frame_file_Inr c2r_def r2f_def b_def r2f'_def c2r'_def)
  have 3: "mset (camera_entries sid cam r2f') + mset (bucket_entries sid cam (w, h) b)
      = mset (camera_entries sid cam r2f) + mset (bucket_entries sid cam (w, h) (b @ [(f, p)]))"
    unfolding camera_entries_def r2f'_def b_def
    by (rule mset_concat_update) (simp add: bucket_entries_def)
  then have 3: "mset (camera_entries sid cam r2f') = mset (camera_entries sid cam r2f) + {#((sid, cam, w, h, f), p)#}"
    by (simp add: bucket_entries_def)
  have 2: "mset (session_entries sid c2r') + mset (camera_entries sid cam r2f)
      = mset (session_entries sid c2r) + mset (camera_entries sid cam r2f')"
    unfolding session_entries_def c2r'_def r2f_def
    by (rule mset_concat_update) (simp add: camera_entries_def)
  with 3 have 2: "mset (session_entries sid c2r') = mset (session_entries sid c2r) + {#((sid, cam, w, h, f), p)#}"
    by simp
  have 1: "mset (entries idx') + mset (session_entries sid c2r)
      = mset (entries idx) + mset (session_entries sid c2r')"
    unfolding entries_def idx' c2r_def
    by (rule mset_concat_update) (simp add: session_entries_def)
  with 2 show ?thesis by simp
qed

lemma set_update_subset: "set (AList.update k v d) \<subseteq> insert (k, v) (set d)"
  by (induction d) auto

lemma map_of_list_all:
  "list_all P d \<Longrightarrow> map_of d k = Some v \<Longrightarrow> P (k, v)"
  by (auto simp: list_all_iff dest: map_of_SomeD)

lemma wf_add_frame_file:
  assumes "add_frame_file idx (sid, cam, w, h, f) p = Inr idx'" and "wf_index idx"
  shows "wf_index idx'"
proof -
  define c2r where "c2r = (case map_of idx sid of None \<Rightarrow> [] | Some d \<Rightarrow> d)"
  define r2f where "r2f = (case map_of c2r cam of None \<Rightarrow> [] | Some d \<Rightarrow> d)"
  define b where "b = (case map_of r2f (w, h) of None \<Rightarrow> [] | Some b \<Rightarrow> b)"
  define r2f' where "r2f' = AList.update (w, h) (b @ [(f, p)]) r2f"
  define c2r' where "c2r' = AList.update cam r2f' c2r"
  from assms have idx': "idx' = AList.update sid c2r' idx"
    by (simp add: add_frame_file_Inr c2r_def r2f_def b_def r2f'_def c2r'_def)
  from assms(2) have c2r: "distinct (map fst c2r) \<and> list_all (\<lambda>cr. distinct (map fst (snd cr))) c2r"
    unfolding c2r_def wf_index_def
    by (auto split: option.splits dest: map_of_list_all)
  then have r2f: "distinct (map fst r2f)"
    unfolding r2f_def by (auto split: option.splits dest: map_of_list_all)
  then have "distinct (map fst r2f')" unfolding r2f'_def by (rule distinct_update)
  with c2r have "distinct (map fst c2r') \<and> list_all (\<lambda>cr. distinct (map fst (snd cr))) c2r'"
    unfolding c2r'_def using set_update_subset[of cam r2f' c2r]
    by (auto simp: list_all_iff distinct_update)
  moreover have "\<forall>sc \<in> set (AList.update sid c2r' idx). sc = (sid, c2r') \<or> sc \<in> set idx"
    using set_update_subset[of sid c2r' idx] by blast
  ultimately show ?thesis
    using assms(2) unfolding idx' wf_index_def list_all_iff
    by (fastforce simp: distinct_update)
qed

lemma group_loop_all_match:
  assumes "\<forall>p \<in> set fs. isfile p \<and> path_identity re p \<noteq> None" and "wf_index idx"
  shows "\<exists>idx'. group_loop isfile re v fs out idx = (out, Inr idx') \<and> wf_index idx'
           \<and> mset (map (\<lambda>kp. (Some (fst kp), snd kp)) (entries idx'))
              = mset (map (\<lambda>kp. (Some (fst kp), snd kp)) (entries idx))
                + mset (map (\<lambda>p. (path_identity re p, p)) fs)"
  using assms
proof (induction fs arbitrary: idx)
  case Nil
  then show ?case by simp
next
  case (Cons p fs)
  from Cons.prems(1) obtain m k where m: "re_search re p = Some m"
    and k: "extract_regex_group_fields m = Inr k" and pk: "path_identity re p = Some k" and f: "isfile p"
    by (auto simp: path_identity_def split: option.splits sum.splits)
  obtain sid cam w h fr where kk: "k = (sid, cam, w, h, fr)" by (cases k)
  obtain idx1 where a: "add_frame_file idx k p = Inr idx1"
    unfolding kk using add_frame_file_Inr by blast
  from wf_add_frame_file[OF a[unfolded kk] Cons.prems(2)] have wf1: "wf_index idx1" .
  from Cons.prems(1) have "\<forall>p \<in> set fs. isfile p \<and> path_identity re p \<noteq> None" by simp
  from Cons.IH[OF this wf1] obtain idx' where
    l: "group_loop isfile re v fs out idx1 = (out, Inr idx')" and wf': "wf_index idx'"
    and e: "mset (map (\<lambda>kp. (Some (fst kp), snd kp)) (entries idx'))
              = mset (map (\<lambda>kp. (Some (fst kp), snd kp)) (entries idx1))
                + mset (map (\<lambda>p. (path_identity re p, p)) fs)"
    by blast
  from entries_add_frame_file[OF a[unfolded kk]]
  have "mset (map (\<lambda>kp. (Some (fst kp), snd kp)) (entries idx1))
      = mset (map (\<lambda>kp. (Some (fst kp), snd kp)) (entries idx)) + {#(Some k, p)#}"
    unfolding kk mset_map by simp
  with e pk have "mset (map (\<lambda>kp. (Some (fst kp), snd kp)) (entries idx'))
              = mset (map (\<lambda>kp. (Some (fst kp), snd kp)) (entries idx))
                + mset (map (\<lambda>p. (path_identity re p, p)) (p # fs))"
    by simp
  moreover from f m k a l have "group_loop isfile re v (p # fs) out idx = (out, Inr idx')" by simp
  ultimately show ?case using wf' by blast
qed

section \<open>The sorting step\<close>

lemma re_search_names: "re_search re p = Some m \<Longrightarrow> fst m = group_names re"
proof -
  have "search_from re n s = Some m \<Longrightarrow> fst m = group_names re" for n s
    by (induction s) (auto simp: match_here_def split: list.splits option.splits)
  then show "re_search re p = Some m \<Longrightarrow> fst m = group_names re"
    by (simp add: re_search_def)
qed

lemma path_identity_frame:
  assumes "path_identity re p = Some (sid, cam, w, h, f)"
  shows "f = None \<longleftrightarrow> ''frame'' \<notin> set (group_names re)"
proof -
  from assms obtain m where m: "re_search re p = Some m"
    and e: "extract_regex_group_fields m = Inr (sid, cam, w, h, f)"
    by (auto simp: path_identity_def split: option.splits sum.splits)
  from e have "int_group m ''frame'' = Inr f"
    by (auto simp: extract_regex_group_fields_def split: sum.splits)
  then have "f = None \<longleftrightarrow> ''frame'' \<notin> set (fst m)"
    by (cases "py_int (the (map_of (snd m) ''frame''))")
       (auto simp: int_group_def match_group_def split: option.splits if_splits)
  with re_search_names[OF m] show ?thesis by simp
qed

lemma those_frames:
  "those (map (\<lambda>(f, p). map_option (\<lambda>i. (i, p)) f) b) = Some xs
     \<longleftrightarrow> b = map (\<lambda>(i, p). (Some i, p)) xs"
proof (induction b arbitrary: xs)
  case Nil
  then show ?case by auto
next
  case (Cons t b)
  obtain f p where t: "t = (f, p)" by (cases t)
  show ?case
  proof (cases f)
    case None
    with t show ?thesis by (auto simp: map_eq_Cons_conv)
  next
    case (Some i)
    with t Cons.IH show ?thesis
      by (cases xs) (auto split: option.splits)
  qed
qed

lemma sorted_fst:
  fixes xs :: "(int \<times> string) list"
  shows "sorted xs \<Longrightarrow> sorted (map fst xs)"
  by (induction xs) (auto simp: less_eq_prod_def)

lemma sort_frame_files_ascending:
  assumes "distinct (map fst b)"
    and "list_all (\<lambda>t. fst t \<noteq> None) b \<or> list_all (\<lambda>t. fst t = None) b"
  shows "\<exists>b'. sort_frame_files b = Inr b' \<and> mset b' = mset b \<and> strictly_ascending (map fst b')"
proof (cases "those (map (\<lambda>(f, p). map_option (\<lambda>i. (i, p)) f) b)")
  case (Some xs)
  then have b: "b = map (\<lambda>(i, p). (Some i, p)) xs" by (simp add: those_frames)
  have f: "map fst b = map Some (map fst xs)" unfolding b by (simp add: case_prod_unfold)
  from assms(1) have "distinct (map Some (map fst xs))" unfolding f .
  then have "distinct (map fst xs)" using distinct_map[of Some "map fst xs"] by blast
  moreover have "mset (map fst (sort xs)) = mset (map fst xs)" by simp
  ultimately have "distinct (map fst (sort xs))" using mset_eq_imp_distinct_iff by blast
  moreover have "sorted (map fst (sort xs))" by (rule sorted_fst) simp
  ultimately have "sorted_wrt (<) (map fst (sort xs))" by (simp add: strict_sorted_iff)
  then have "strictly_ascending (map fst (map (\<lambda>(i, p). (Some i, p)) (sort xs)))"
    by (simp add: strictly_ascending_def sorted_wrt_map case_prod_unfold)
  moreover have "mset (map (\<lambda>(i, p). (Some i, p)) (sort xs)) = mset b"
    unfolding b by simp
  moreover from Some have "sort_frame_files b = Inr (map (\<lambda>(i, p). (Some i, p)) (sort xs))"
    by (simp add: sort_frame_files_def)
  ultimately show ?thesis by blast
next
  case None
  have "\<not> list_all (\<lambda>t. fst t \<noteq> None) b \<or> b = []"
  proof (rule ccontr)
    assume "\<not> (\<not> list_all (\<lambda>t. fst t \<noteq> None) b \<or> b = [])"
    then have "\<forall>t \<in> set b. \<exists>i. fst t = Some i" by (auto simp: list_all_iff)
    then have "b = map (\<lambda>(i, p). (Some i, p)) (map (\<lambda>t. (the (fst t), snd t)) b)"
      by (induction b) auto
    with None show False by (metis those_frames option.distinct(1))
  qed
  moreover have "b \<noteq> []" using None by auto
  ultimately have n: "list_all (\<lambda>t. fst t = None) b" using assms(2) by blast
  then have "map fst b = replicate (length b) None"
    by (induction b) auto
  with assms(1) have "length b \<le> 1"
    by (cases b; cases "tl b") auto
  with \<open>b \<noteq> []\<close> obtain p where b: "b = [(None, p)]"
    using n by (cases b) auto
  with None have "sort_frame_files b = Inr b"
    by (simp add: sort_frame_files_def)
  with b show ?thesis by (simp add: strictly_ascending_def)
qed

lemma distinct_map_concat_elem:
  "distinct (map f (concat xss)) \<Longrightarrow> xs \<in> set xss \<Longrightarrow> distinct (map f xs)"
  by (induction xss) auto

lemma bucket_in_entries:
  assumes "b \<in> set (buckets idx)"
  shows "\<exists>sid cam res. set (bucket_entries sid cam res b) \<subseteq> set (entries idx)
           \<and> (distinct (map fst (entries idx)) \<longrightarrow> distinct (map fst (bucket_entries sid cam res b)))"
proof -
  from assms obtain sid c2r cam r2f res where 1: "(sid, c2r) \<in> set idx"
    and 2: "(cam, r2f) \<in> set c2r" and 3: "(res, b) \<in> set r2f"
    by (auto simp: buckets_def)
  have a: "bucket_entries sid cam res b \<in> set (map (\<lambda>rb. bucket_entries sid cam (fst rb) (snd rb)) r2f)"
    using 3 by force
  have b: "camera_entries sid cam r2f \<in> set (map (\<lambda>cr. camera_entries sid (fst cr) (snd cr)) c2r)"
    using 2 by force
  have c: "session_entries sid c2r \<in> set (map (\<lambda>sc. session_entries (fst sc) (snd sc)) idx)"
    using 1 by force
  have "set (bucket_entries sid cam res b) \<subseteq> set (camera_entries sid cam r2f)"
    unfolding camera_entries_def using a by auto
  also have "\<dots> \<subseteq> set (session_entries sid c2r)"
    unfolding session_entries_def using b by auto
  also have "\<dots> \<subseteq> set (entries idx)"
    unfolding entries_def using c by auto
  finally have s: "set (bucket_entries sid cam res b) \<subseteq> set (entries idx)" .
  have "distinct (map fst (bucket_entries sid cam res b))" if d: "distinct (map fst (entries idx))"
  proof -
    from d c have "distinct (map fst (session_entries sid c2r))"
      unfolding entries_def by (rule distinct_map_concat_elem)
    with b have "distinct (map fst (camera_entries sid cam r2f))"
      unfolding session_entries_def by (rule distinct_map_concat_elem[rotated])
    with a show ?thesis
      unfolding camera_entries_def by (rule distinct_map_concat_elem[rotated])
  qed
  with s show ?thesis by blast
qed

definition sort_bucket :: "frame_file list \<Rightarrow> frame_file list" where
  "sort_bucket b = (case sort_frame_files b of Inr b' \<Rightarrow> b' | Inl x \<Rightarrow> b)"

lemma sort_index_eq:
  assumes "\<forall>b \<in> set (buckets idx). \<exists>b'. sort_frame_files b = Inr b'"
  shows "sort_index idx = Inr (map (\<lambda>sc. (fst sc, map (\<lambda>cr. (fst cr, map (\<lambda>rb.
            (fst rb, sort_bucket (snd rb))) (snd cr))) (snd sc))) idx)"
proof -
  from assms have "list_all (\<lambda>b. case sort_frame_files b of Inr b' \<Rightarrow> True | Inl x \<Rightarrow> False) (buckets idx)"
    by (auto simp: list_all_iff)
  then show ?thesis
    by (simp add: sort_index_def sort_bucket_def case_prod_unfold)
qed

lemma buckets_sorted:
  "buckets (map (\<lambda>sc. (fst sc, map (\<lambda>cr. (fst cr, map (\<lambda>rb. (fst rb, S (snd rb))) (snd cr))) (snd sc))) idx)
     = map S (buckets idx)"
  by (simp add: buckets_def map_concat o_def case_prod_unfold)

lemma camera_entries_sorted:
  "\<forall>rb \<in> set r2f. mset (S (snd rb)) = mset (snd rb) \<Longrightarrow>
   mset (camera_entries sid cam (map (\<lambda>rb. (fst rb, S (snd rb))) r2f)) = mset (camera_entries sid cam r2f)"
  by (induction r2f) (auto simp: camera_entries_def bucket_entries_def)

lemma session_entries_sorted:
  "\<forall>cr \<in> set c2r. \<forall>rb \<in> set (snd cr). mset (S (snd rb)) = mset (snd rb) \<Longrightarrow>
   mset (session_entries sid (map (\<lambda>cr. (fst cr, map (\<lambda>rb. (fst rb, S (snd rb))) (snd cr))) c2r))
     = mset (session_entries sid c2r)"
proof (induction c2r)
  case Nil
  then show ?case by (simp add: session_entries_def)
next
  case (Cons cr c2r)
  then have "mset (session_entries sid (map (\<lambda>cr. (fst cr, map (\<lambda>rb. (fst rb, S (snd rb))) (snd cr))) c2r))
     = mset (session_entries sid c2r)" by simp
  moreover from Cons.prems have "mset (camera_entries sid (fst cr) (map (\<lambda>rb. (fst rb, S (snd rb))) (snd cr)))
     = mset (camera_entries sid (fst cr) (snd cr))"
    by (intro camera_entries_sorted) simp
  ultimately show ?case by (simp add: session_entries_def)
qed

lemma buckets_Cons:
  "buckets (sc # idx) = concat (map (\<lambda>cr. map snd (snd cr)) (snd sc)) @ buckets idx"
  by (simp add: buckets_def case_prod_unfold)

lemma entries_sorted:
  "\<forall>b \<in> set (buckets idx). mset (S b) = mset b \<Longrightarrow>
   mset (entries (map (\<lambda>sc. (fst sc, map (\<lambda>cr. (fst cr, map (\<lambda>rb. (fst rb, S (snd rb))) (snd cr))) (snd sc))) idx))
     = mset (entries idx)"
proof (induction idx)
  case Nil
  then show ?case by (simp add: entries_def)
next
  case (Cons sc idx)
  from Cons.prems have "\<forall>b\<in>set (buckets idx). mset (S b) = mset b"
    unfolding buckets_Cons by simp
  with Cons.IH have 1: "mset (entries (map (\<lambda>sc. (fst sc, map (\<lambda>cr. (fst cr, map (\<lambda>rb. (fst rb, S (snd rb))) (snd cr))) (snd sc))) idx))
     = mset (entries idx)" by simp
  have "mset (S (snd rb)) = mset (snd rb)" if "cr \<in> set (snd sc)" "rb \<in> set (snd cr)" for cr rb
  proof -
    from that have "snd rb \<in> set (concat (map (\<lambda>cr. map snd (snd cr)) (snd sc)))" by auto
    with Cons.prems show ?thesis unfolding buckets_Cons by simp
  qed
  then have "\<forall>cr \<in> set (snd sc). \<forall>rb \<in> set (snd cr). mset (S (snd rb)) = mset (snd rb)"
    by blast
  then have 2: "mset (session_entries (fst sc) (map (\<lambda>cr. (fst cr, map (\<lambda>rb. (fst rb, S (snd rb))) (snd cr))) (snd sc)))
     = mset (session_entries (fst sc) (snd sc))"
    by (rule session_entries_sorted)
  have "entries (x # xs) = session_entries (fst x) (snd x) @ entries xs" for x xs
    by (simp add: entries_def)
  with 1 2 show ?case by simp
qed

lemma wf_index_sorted:
  "wf_index (map (\<lambda>sc. (fst sc, map (\<lambda>cr. (fst cr, map (\<lambda>rb. (fst rb, S (snd rb))) (snd cr))) (snd sc))) idx)
     = wf_index idx"
  by (simp add: wf_index_def list_all_iff o_def)

lemma group_files_all_match:
  assumes "\<forall>p \<in> set filenames. isfile p \<and> path_identity filename_re p \<noteq> None"
    and "distinct (map (path_identity filename_re) filenames)"
  shows "\<exists>idx. group_files isfile filenames filename_re verbose = ([], Inr idx)
     \<and> wf_index idx
     \<and> mset (map (\<lambda>kp. (Some (fst kp), snd kp)) (entries idx))
         = mset (map (\<lambda>p. (path_identity filename_re p, p)) filenames)
     \<and> distinct (map fst (entries idx))
     \<and> (\<forall>b \<in> set (buckets idx). strictly_ascending (map fst b))"
proof -
  have "wf_index []" by (simp add: wf_index_def)
  from group_loop_all_match[OF assms(1) this, of verbose "[]"]
  obtain idx0 where l: "group_loop isfile filename_re verbose filenames [] [] = ([], Inr idx0)"
    and wf0: "wf_index idx0"
    and e0: "mset (map (\<lambda>kp. (Some (fst kp), snd kp)) (entries idx0))
         = mset (map (\<lambda>p. (path_identity filename_re p, p)) filenames)"
    by (auto simp: entries_def)
  have d0: "distinct (map fst (entries idx0))"
  proof -
    from e0 have "image_mset fst (mset (map (\<lambda>kp. (Some (fst kp), snd kp)) (entries idx0)))
         = image_mset fst (mset (map (\<lambda>p. (path_identity filename_re p, p)) filenames))"
      by simp
    then have "mset (map Some (map fst (entries idx0))) = mset (map (path_identity filename_re) filenames)"
      by (simp add: multiset.map_comp o_def)
    with assms(2) have "distinct (map Some (map fst (entries idx0)))"
      using mset_eq_imp_distinct_iff by blast
    then show ?thesis using distinct_map[of Some "map fst (entries idx0)"] by blast
  qed
  have b0: "\<exists>b'. sort_frame_files b = Inr b' \<and> mset b' = mset b \<and> strictly_ascending (map fst b')"
    if b: "b \<in> set (buckets idx0)" for b
  proof -
    from bucket_in_entries[OF b] d0 obtain sid cam res where
      s: "set (bucket_entries sid cam res b) \<subseteq> set (entries idx0)"
      and d: "distinct (map fst (bucket_entries sid cam res b))"
      by blast
    have "map fst (bucket_entries sid cam res b) = map (\<lambda>f. (sid, cam, fst res, snd res, f)) (map fst b)"
      by (simp add: bucket_entries_def)
    with d have db: "distinct (map fst b)"
      using distinct_map[of "\<lambda>f. (sid, cam, fst res, snd res, f)" "map fst b"] by simp
    have fr: "fst t = None \<longleftrightarrow> ''frame'' \<notin> set (group_names filename_re)" if t: "t \<in> set b" for t
    proof -
      from t have "((sid, cam, fst res, snd res, fst t), snd t) \<in> set (bucket_entries sid cam res b)"
        by (force simp: bucket_entries_def)
      with s have "((sid, cam, fst res, snd res, fst t), snd t) \<in> set (entries idx0)" by blast
      then have "(\<lambda>kp. (Some (fst kp), snd kp)) ((sid, cam, fst res, snd res, fst t), snd t)
          \<in> set (map (\<lambda>kp. (Some (fst kp), snd kp)) (entries idx0))"
        unfolding set_map by (rule imageI)
      then have "(Some (sid, cam, fst res, snd res, fst t), snd t)
          \<in> set (map (\<lambda>kp. (Some (fst kp), snd kp)) (entries idx0))"
        by simp
      then have "(Some (sid, cam, fst res, snd res, fst t), snd t)
          \<in> set (map (\<lambda>p. (path_identity filename_re p, p)) filenames)"
        using mset_eq_setD[OF e0] by simp
      then have "path_identity filename_re (snd t) = Some (sid, cam, fst res, snd res, fst t)"
        by auto
      then show ?thesis by (rule path_identity_frame)
    qed
    then have "list_all (\<lambda>t. fst t \<noteq> None) b \<or> list_all (\<lambda>t. fst t = None) b"
      by (cases "''frame'' \<in> set (group_names filename_re)") (auto simp: list_all_iff)
    with db show ?thesis by (rule sort_frame_files_ascending)
  qed
  define idx where "idx = map (\<lambda>sc. (fst sc, map (\<lambda>cr. (fst cr, map (\<lambda>rb.
            (fst rb, sort_bucket (snd rb))) (snd cr))) (snd sc))) idx0"
  have si: "sort_index idx0 = Inr idx"
    unfolding idx_def using b0 by (intro sort_index_eq) blast
  have sb: "mset (sort_bucket b) = mset b \<and> strictly_ascending (map fst (sort_bucket b))"
    if "b \<in> set (buckets idx0)" for b
    using b0[OF that] by (auto simp: sort_bucket_def)
  have 1: "group_files isfile filenames filename_re verbose = ([], Inr idx)"
    by (simp add: group_files_def l si)
  have 2: "wf_index idx" unfolding idx_def using wf0 by (simp add: wf_index_sorted)
  have me: "mset (entries idx) = mset (entries idx0)"
    unfolding idx_def using sb by (intro entries_sorted) blast
  then have "mset (map (\<lambda>kp. (Some (fst kp), snd kp)) (entries idx))
      = mset (map (\<lambda>kp. (Some (fst kp), snd kp)) (entries idx0))"
    by simp
  with e0 have 3: "mset (map (\<lambda>kp. (Some (fst kp), snd kp)) (entries idx))
         = mset (map (\<lambda>p. (path_identity filename_re p, p)) filenames)" by simp
  from me have "mset (map fst (entries idx)) = mset (map fst (entries idx0))"
    by simp
  with d0 have 4: "distinct (map fst (entries idx))"
    using mset_eq_imp_distinct_iff by blast
  have "buckets idx = map sort_bucket (buckets idx0)"
    unfolding idx_def by (rule buckets_sorted)
  with sb have 5: "\<forall>b \<in> set (buckets idx). strictly_ascending (map fst b)" by auto
  from 1 2 3 4 5 show ?thesis by blast
qed

section \<open>Patterns without \<open>id\<close> and \<open>camera\<close> groups\<close>

definition implicit_only :: "id2cam2res2frame_file_tuples \<Rightarrow> bool" where
  "implicit_only idx =
     list_all (\<lambda>sc. fst sc = None \<and> snd sc \<noteq> [] \<and> list_all (\<lambda>cr. fst cr = None) (snd sc)) idx"

lemma extract_implicit:
  assumes "re_search re p = Some m" "extract_regex_group_fields m = Inr (sid, cam, w, h, f)"
    and "''id'' \<notin> set (group_names re)" "''camera'' \<notin> set (group_names re)"
  shows "sid = None \<and> cam = None"
  using assms(2-4) re_search_names[OF assms(1)]
  by (auto simp: extract_regex_group_fields_def str_group_def match_group_def split: sum.splits)

lemma implicit_add_frame_file:
  assumes "add_frame_file idx (None, None, w, h, f) p = Inr idx'" and "implicit_only idx"
  shows "implicit_only idx'"
proof -
  define c2r where "c2r = (case map_of idx None of None \<Rightarrow> [] | Some d \<Rightarrow> d)"
  define r2f where "r2f = (case map_of c2r None of None \<Rightarrow> [] | Some d \<Rightarrow> d)"
  define b where "b = (case map_of r2f (w, h) of None \<Rightarrow> [] | Some b \<Rightarrow> b)"
  define r2f' where "r2f' = AList.update (w, h) (b @ [(f, p)]) r2f"
  define c2r' where "c2r' = AList.update None r2f' c2r"
  from assms have idx': "idx' = AList.update None c2r' idx"
    by (simp add: add_frame_file_Inr c2r_def r2f_def b_def r2f'_def c2r'_def)
  from assms(2) have "list_all (\<lambda>cr. fst cr = None) c2r"
    unfolding c2r_def implicit_only_def
    by (auto split: option.splits dest: map_of_list_all)
  then have "list_all (\<lambda>cr. fst cr = None) c2r'"
    unfolding c2r'_def using set_update_subset[of None r2f' c2r]
    by (auto simp: list_all_iff)
  moreover have "c2r' \<noteq> []" unfolding c2r'_def by simp
  moreover have "\<forall>sc \<in> set (AList.update None c2r' idx). sc = (None, c2r') \<or> sc \<in> set idx"
    using set_update_subset[of None c2r' idx] by blast
  ultimately show ?thesis
    using assms(2) unfolding idx' implicit_only_def list_all_iff by fastforce
qed

lemma group_loop_implicit:
  assumes "''id'' \<notin> set (group_names re)" "''camera'' \<notin> set (group_names re)"
    and "group_loop isfile re v fs out idx = (out', Inr idx')"
    and "wf_index idx" "implicit_only idx"
  shows "wf_index idx' \<and> implicit_only idx'
       \<and> mset (map snd (entries idx'))
          = mset (map snd (entries idx)) + mset (filter (\<lambda>p. isfile p \<and> re_search re p \<noteq> None) fs)"
  using assms(3-5)
proof (induction fs arbitrary: out idx)
  case Nil
  then show ?case by simp
next
  case (Cons p fs)
  show ?case
  proof (cases "isfile p \<and> re_search re p \<noteq> None")
    case False
    with Cons.prems(1) have "group_loop isfile re v fs (if isfile p \<and> v then out @ [ignored_message p] else out) idx
        = (out', Inr idx')"
      by (cases "re_search re p") (auto split: if_splits)
    from Cons.IH[OF this Cons.prems(2,3)] False show ?thesis by auto
  next
    case True
    then obtain m where f: "isfile p" and m: "re_search re p = Some m" by auto
    with Cons.prems(1) obtain k idx1 where k: "extract_regex_group_fields m = Inr k"
      and a: "add_frame_file idx k p = Inr idx1"
      and l: "group_loop isfile re v fs out idx1 = (out', Inr idx')"
      by (auto split: sum.splits)
    obtain sid cam w h fr where kk: "k = (sid, cam, w, h, fr)" by (cases k)
    from extract_implicit[OF m k[unfolded kk] assms(1,2)] have n: "sid = None" "cam = None" by auto
    from wf_add_frame_file[OF a[unfolded kk] Cons.prems(2)] have wf1: "wf_index idx1" .
    from implicit_add_frame_file[OF a[unfolded kk n] Cons.prems(3)] have i1: "implicit_only idx1" .
    from entries_add_frame_file[OF a[unfolded kk]]
    have "mset (map snd (entries idx1)) = mset (map snd (entries idx)) + {#p#}"
      by simp
    with Cons.IH[OF l wf1 i1] True show ?thesis by simp
  qed
qed

lemma implicit_shape:
  assumes "wf_index idx" "implicit_only idx"
  shows "idx = [] \<or> (\<exists>r2f. idx = [(None, [(None, r2f)])])"
proof (cases idx)
  case Nil
  then show ?thesis by simp
next
  case (Cons sc rest)
  from assms Cons have rest: "rest = []"
    by (cases rest) (auto simp: wf_index_def implicit_only_def)
  obtain sid c2r where sc: "sc = (sid, c2r)" by (cases sc)
  from assms(2) Cons sc have sid: "sid = None" and ne: "c2r \<noteq> []"
    and cn: "list_all (\<lambda>cr. fst cr = None) c2r"
    by (auto simp: implicit_only_def)
  from assms(1) Cons sc have d: "distinct (map fst c2r)" by (simp add: wf_index_def)
  from ne obtain cr crs where c2r: "c2r = cr # crs" by (cases c2r) auto
  with cn d have "crs = []" by (cases crs) auto
  moreover from cn c2r obtain r2f where "cr = (None, r2f)" by (cases cr) auto
  ultimately show ?thesis using Cons rest sc sid c2r by simp
qed

lemma sort_frame_files_mset:
  assumes "sort_frame_files b = Inr b'"
  shows "mset b' = mset b"
proof (cases "those (map (\<lambda>(f, p). map_option (\<lambda>i. (i, p)) f) b)")
  case (Some xs)
  then have b: "b = map (\<lambda>(i, p). (Some i, p)) xs" by (simp add: those_frames)
  from Some assms have "b' = map (\<lambda>(i, p). (Some i, p)) (sort xs)"
    by (simp add: sort_frame_files_def)
  with b show ?thesis by simp
next
  case None
  with assms have n: "list_all (\<lambda>t. fst t = None) b" and b': "b' = map (\<lambda>p. (None, p)) (sort (map snd b))"
    by (auto simp: sort_frame_files_def split: if_splits)
  from n have "b = map (\<lambda>p. (None, p)) (map snd b)"
    by (induction b) auto
  then have "mset b = image_mset (\<lambda>p. (None, p)) (mset (map snd b))"
    by (metis mset_map)
  also have "\<dots> = image_mset (\<lambda>p. (None, p)) (mset (sort (map snd b)))" by simp
  also have "\<dots> = mset b'" unfolding b' by simp
  finally show ?thesis by simp
qed

lemma sort_bucket_mset: "mset (sort_bucket b) = mset b"
  by (auto simp: sort_bucket_def sort_frame_files_mset split: sum.splits)

lemma sort_index_Inr:
  "sort_index idx0 = Inr idx \<Longrightarrow>
   idx = map (\<lambda>sc. (fst sc, map (\<lambda>cr. (fst cr, map (\<lambda>rb. (fst rb, sort_bucket (snd rb))) (snd cr))) (snd sc))) idx0"
  by (auto simp: sort_index_def sort_bucket_def case_prod_unfold split: if_splits)

lemma group_files_implicit:
  assumes "''id'' \<notin> set (group_names re)" "''camera'' \<notin> set (group_names re)"
    and "group_files isfile fs re v = (out, Inr idx)"
  shows "(idx = [] \<or> (\<exists>r2f. idx = [(None, [(None, r2f)])]))
       \<and> mset (map snd (entries idx)) = mset (filter (\<lambda>p. isfile p \<and> re_search re p \<noteq> None) fs)"
proof -
  from assms(3) obtain idx0 where l: "group_loop isfile re v fs [] [] = (out, Inr idx0)"
    and s: "sort_index idx0 = Inr idx"
    by (auto simp: group_files_def split: prod.splits sum.splits)
  have "wf_index []" "implicit_only []" by (simp_all add: wf_index_def implicit_only_def)
  from group_loop_implicit[OF assms(1,2) l this]
  have wf0: "wf_index idx0" and i0: "implicit_only idx0"
    and e0: "mset (map snd (entries idx0)) = mset (filter (\<lambda>p. isfile p \<and> re_search re p \<noteq> None) fs)"
    by (auto simp: entries_def)
  note idx = sort_index_Inr[OF s]
  from implicit_shape[OF wf0 i0] have 1: "idx = [] \<or> (\<exists>r2f. idx = [(None, [(None, r2f)])])"
    unfolding idx by auto
  have "mset (entries idx) = mset (entries idx0)"
    unfolding idx by (intro entries_sorted) (simp add: sort_bucket_mset)
  then have "mset (map snd (entries idx)) = mset (map snd (entries idx0))" by simp
  with e0 1 show ?thesis by simp
qed

section \<open>Claims on the completed index and the output files\<close>

text \<open>
  C6: when every path of the input list is an existing file that matches the pattern
  and extracts, and the identities (session, camera, width, height, frame) of the paths
  are pairwise distinct, \<open>group_files\<close> returns an index in which no dictionary has a
  key twice, which holds exactly one \<open>(frame, path)\<close> entry per input path, filed under
  the identity of the path, with no identity twice, and in which the frames of every
  bucket are in strictly ascending order after the sorting step.
\<close>

theorem distinct_identities_one_entry_each_ascending:
  assumes "\<forall>p \<in> set filenames. isfile p \<and> path_identity filename_re p \<noteq> None"
    and "distinct (map (path_identity filename_re) filenames)"
  shows "\<exists>idx. group_files isfile filenames filename_re verbose = ([], Inr idx)
     \<and> wf_index idx
     \<and> mset (map (\<lambda>kp. (Some (fst kp), snd kp)) (entries idx))
         = mset (map (\<lambda>p. (path_identity filename_re p, p)) filenames)
     \<and> distinct (map fst (entries idx))
     \<and> (\<forall>b \<in> set (buckets idx). strictly_ascending (map fst b))"
  using assms by (rule group_files_all_match)

theorem distinct_identities_one_entry_each_ascending_witness:
  "path_identity FILENAME_OPFILE_RE ''A_c_6x4_1_keypoints.json'' = Some (Some ''A'', Some ''c'', Some 6, Some 4, Some 1)
 \<and> path_identity FILENAME_OPFILE_RE ''A_c_6x4_0_keypoints.json'' = Some (Some ''A'', Some ''c'', Some 6, Some 4, Some 0)
 \<and> group_files (\<lambda>p. True) [''A_c_6x4_1_keypoints.json'', ''A_c_6x4_0_keypoints.json''] FILENAME_OPFILE_RE False
     = ([], Inr [(Some ''A'', [(Some ''c'', [((Some 6, Some 4),
          [(Some 0, ''A_c_6x4_0_keypoints.json''), (Some 1, ''A_c_6x4_1_keypoints.json'')])])])])
 \<and> strictly_ascending [Some 0, Some 1]
 \<and> distinct (map fst (entries [(Some ''A'', [(Some ''c'', [((Some 6, Some 4),
          [(Some 0, ''A_c_6x4_0_keypoints.json''), (Some 1, ''A_c_6x4_1_keypoints.json'')])])])]))"
proof -
  let ?f1 = "''A_c_6x4_1_keypoints.json''" and ?f0 = "''A_c_6x4_0_keypoints.json''"
  let ?idx = "[(Some ''A'', [(Some ''c'', [((Some (6::int), Some (4::int)), [(Some (0::int), ?f0), (Some 1, ?f1)])])])]"
  have p1: "path_identity FILENAME_OPFILE_RE ?f1 = Some (Some ''A'', Some ''c'', Some 6, Some 4, Some 1)"
    by code_simp
  have p0: "path_identity FILENAME_OPFILE_RE ?f0 = Some (Some ''A'', Some ''c'', Some 6, Some 4, Some 0)"
    by code_simp
  have g: "group_files (\<lambda>p. True) [?f1, ?f0] FILENAME_OPFILE_RE False = ([], Inr ?idx)"
    by code_simp
  have h1: "\<forall>p \<in> set [?f1, ?f0]. (\<lambda>p. True) p \<and> path_identity FILENAME_OPFILE_RE p \<noteq> None"
    using p1 p0 by simp
  have h2: "distinct (map (path_identity FILENAME_OPFILE_RE) [?f1, ?f0])"
    using p1 p0 by simp
  from distinct_identities_one_entry_each_ascending[OF h1 h2, of False] g
  have "distinct (map fst (entries ?idx))" and "\<forall>b \<in> set (buckets ?idx). strictly_ascending (map fst b)"
    by auto
  moreover have "buckets ?idx = [[(Some 0, ?f0), (Some 1, ?f1)]]" by (simp add: buckets_def)
  ultimately have "strictly_ascending [Some 0, Some 1]" and "distinct (map fst (entries ?idx))"
    by auto
  with p1 p0 g show ?thesis by blast
qed

section \<open>What the keypoints pattern matches\<close>

text \<open>
  \<open>kp_find\<close> states directly what a match of \<open>KEYPOINTS_KEY_VALUE_RE\<close> at the front of a
  text is: a quote, a run of word characters that ends with \<open>_keypoints_\<close>, a digit
  and \<open>d\<close>, then \<open>": [\<close>; then one character of the class and the shortest run of
  characters of the class up to a \<open>]\<close>. It returns the three groups' texts (the third
  is the bracket) and the text behind the match.
\<close>

definition is_kw :: "char \<Rightarrow> bool" where
  "is_kw c = (py_isword c \<or> c = CHR ''_'')"

definition key_tail :: "string \<Rightarrow> bool" where
  "key_tail x = (prefix ''_keypoints_'' x \<and>
     (case drop 11 x of [] \<Rightarrow> False
      | d # y \<Rightarrow> py_isdigit d \<and> prefix [CHR ''d'', CHR 0x22, CHR '':'', CHR '' '', CHR ''[''] y))"

definition kp_find :: "string \<Rightarrow> (string \<times> string \<times> string) option" where
  "kp_find s = (case s of [] \<Rightarrow> None | q # s1 \<Rightarrow>
     if q \<noteq> CHR 0x22 then None else
     let m = length (takeWhile is_kw s1) in
     if m < 14 \<or> \<not> key_tail (drop (m - 13) s1) then None else
     (case drop (m + 4) s1 of [] \<Rightarrow> None
      | c # t \<Rightarrow>
         let g = takeWhile (\<lambda>x. x \<noteq> CHR '']'') t in
         if keypoints_class c \<and> list_all keypoints_class g \<and> length g < length t
         then Some (take (m + 5) s, c # g, drop (Suc (length g)) t) else None))"

lemma rep_iter_lazy_cls:
  "rep_iter Lazy (\<lambda>s e. case s of [] \<Rightarrow> [] | c # t \<Rightarrow> if P c then [(t, e)] else []) k t e
     = map (\<lambda>j. (drop j t, e)) [0..<Suc (min k (length (takeWhile P t)))]"
proof (induction k arbitrary: t)
  case 0
  then show ?case by simp
next
  case (Suc k)
  show ?case
  proof (cases t)
    case Nil
    then show ?thesis by simp
  next
    case (Cons c t')
    show ?thesis
    proof (cases "P c")
      case False
      with Cons show ?thesis by simp
    next
      case True
      have "map (\<lambda>j. (drop j (c # t'), e)) [0..<Suc (Suc (min k (length (takeWhile P t'))))]
          = (c # t', e) # map (\<lambda>j. (drop j t', e)) [0..<Suc (min k (length (takeWhile P t')))]"
        unfolding upt_conv_Cons[of 0 "Suc (Suc _)", OF zero_less_Suc]
        by (simp add: map_Suc_upt[symmetric] del: upt_Suc)
      with True Cons Suc.IH[of t'] show ?thesis by simp
    qed
  qed
qed

lemma plus_lazy_cls:
  "rmatch (Plus Lazy (Cls P)) n s e = map (\<lambda>j. (drop j s, e)) [1..<Suc (length (takeWhile P s))]"
proof (cases s)
  case Nil
  then show ?thesis by (simp add: Plus_def)
next
  case (Cons c t)
  show ?thesis
  proof (cases "P c")
    case False
    with Cons show ?thesis by (simp add: Plus_def)
  next
    case True
    have m: "min (Suc (length t)) (length (takeWhile P t)) = length (takeWhile P t)"
      using length_takeWhile_le[of P t] by simp
    have "map (\<lambda>j. (drop j (c # t), e)) [1..<Suc (Suc (length (takeWhile P t)))]
        = map (\<lambda>j. (drop j t, e)) [0..<Suc (length (takeWhile P t))]"
      by (simp add: map_Suc_upt[symmetric] del: upt_Suc)
    with True Cons m show ?thesis
      by (simp add: Plus_def rep_iter_lazy_cls del: upt_Suc rep_iter.simps)
  qed
qed



lemma concat_map_unique:
  assumes "\<And>x. x \<in> set xs \<Longrightarrow> f x \<noteq> [] \<Longrightarrow> x = a" and "distinct xs"
  shows "concat (map f xs) = (if a \<in> set xs then f a else [])"
  using assms
proof (induction xs)
  case Nil
  then show ?case by simp
next
  case (Cons x xs)
  show ?case
  proof (cases "x = a")
    case True
    with Cons.prems have "\<forall>y \<in> set xs. f y = []" by auto
    then have "concat (map f xs) = []" by simp
    with True show ?thesis by simp
  next
    case False
    with Cons.prems(1)[of x] have "f x = []" by auto
    moreover from Cons have "concat (map f xs) = (if a \<in> set xs then f a else [])" by auto
    ultimately show ?thesis using False by simp
  qed
qed

lemma key_tail_iff:
  "key_tail x \<longleftrightarrow> (\<exists>d y. py_isdigit d \<and> x = ''_keypoints_'' @ [d] @ [CHR ''d'', CHR 0x22, CHR '':'', CHR '' '', CHR ''[''] @ y)"
proof
  assume "key_tail x"
  then obtain u where u: "x = ''_keypoints_'' @ u" by (auto simp: key_tail_def prefix_def)
  with \<open>key_tail x\<close> obtain d v where "u = d # v" "py_isdigit d"
    "prefix [CHR ''d'', CHR 0x22, CHR '':'', CHR '' '', CHR ''[''] v"
    by (auto simp: key_tail_def split: list.splits)
  with u show "\<exists>d y. py_isdigit d \<and> x = ''_keypoints_'' @ [d] @ [CHR ''d'', CHR 0x22, CHR '':'', CHR '' '', CHR ''[''] @ y"
    by (auto simp: prefix_def)
next
  assume "\<exists>d y. py_isdigit d \<and> x = ''_keypoints_'' @ [d] @ [CHR ''d'', CHR 0x22, CHR '':'', CHR '' '', CHR ''[''] @ y"
  then show "key_tail x" by (auto simp: key_tail_def)
qed

lemma rmatch_key_tail:
  "rmatch (Cat [Lit ''_keypoints_'', Digit, Lit [CHR ''d'', CHR 0x22, CHR '':'', CHR '' '', CHR ''['']]) n x e
     = (if key_tail x then [(drop 17 x, e)] else [])"
  by (auto simp: key_tail_iff Digit_def prefix_def split: list.splits)



lemma is_kw_key_chars:
  "list_all is_kw ''_keypoints_''" "is_kw CHR ''d''" "\<not> is_kw (CHR 0x22)" "py_isdigit d \<Longrightarrow> is_kw d"
  by (simp_all add: is_kw_def py_isword_def py_isdigit_def)

lemma key_tail_position:
  assumes "key_tail (drop j s1)" and "j \<le> length (takeWhile is_kw s1)"
  shows "length (takeWhile is_kw s1) = j + 13"
proof -
  from assms(1) obtain d y where d: "py_isdigit d"
    and x: "drop j s1 = ''_keypoints_'' @ [d] @ [CHR ''d'', CHR 0x22, CHR '':'', CHR '' '', CHR ''[''] @ y"
    unfolding key_tail_iff by blast
  have "take j s1 = take j (takeWhile is_kw s1)"
    using assms(2) by (metis takeWhile_eq_take take_take min.absorb1 min.commute)
  then have p: "\<forall>c \<in> set (take j s1). is_kw c"
    by (metis in_set_takeD set_takeWhileD)
  have "s1 = take j s1 @ drop j s1" by simp
  then have s1: "s1 = (take j s1 @ ''_keypoints_'' @ [d] @ [CHR ''d'']) @ CHR 0x22 # ('': ['' @ y)"
    using x by simp
  have j: "length (take j s1) = j"
    using assms(2) length_takeWhile_le[of is_kw s1] by simp
  have "takeWhile is_kw s1 = take j s1 @ ''_keypoints_'' @ [d] @ [CHR ''d'']"
    apply (subst s1)
    apply (subst takeWhile_append2)
    using p d is_kw_key_chars apply (auto simp: is_kw_def py_isword_def py_isdigit_def)[1]
    using is_kw_key_chars(3) apply simp
    done
  then have "length (takeWhile is_kw s1) = length (take j s1 @ ''_keypoints_'' @ [d] @ [CHR ''d''])"
    by simp
  with j show ?thesis by simp
qed

lemma rmatch_group1:
  "rmatch (Cat [Lit [CHR 0x22], Plus Lazy (Cls is_kw), Lit ''_keypoints_'', Digit,
                Lit [CHR ''d'', CHR 0x22, CHR '':'', CHR '' '', CHR ''['']]) n s e
     = (case s of [] \<Rightarrow> []
        | q # s1 \<Rightarrow>
            if q = CHR 0x22 \<and> 14 \<le> length (takeWhile is_kw s1)
               \<and> key_tail (drop (length (takeWhile is_kw s1) - 13) s1)
            then [(drop (length (takeWhile is_kw s1) + 4) s1, e)] else [])"
proof (cases s)
  case Nil
  then show ?thesis by simp
next
  case (Cons q s1)
  define m where "m = length (takeWhile is_kw s1)"
  define R where "R = Cat [Lit ''_keypoints_'', Digit, Lit [CHR ''d'', CHR 0x22, CHR '':'', CHR '' '', CHR ''['']]"
  define f where "f = (\<lambda>j. if key_tail (drop j s1) then [(drop 17 (drop j s1), e)] else [])"
  have R: "rmatch R n x e' = (if key_tail x then [(drop 17 x, e')] else [])" for x e'
    unfolding R_def by (rule rmatch_key_tail)
  have u: "concat (map f [1..<Suc m]) = (if m - 13 \<in> set [1..<Suc m] then f (m - 13) else [])"
  proof (rule concat_map_unique)
    fix j assume "j \<in> set [1..<Suc m]" "f j \<noteq> []"
    then have "key_tail (drop j s1)" "j \<le> m" by (auto simp: f_def split: if_splits)
    from key_tail_position[OF this[unfolded m_def]] show "j = m - 13" by (simp add: m_def)
  qed simp
  have "rmatch (Seq (Lit [CHR 0x22]) (Seq (Plus Lazy (Cls is_kw)) R)) n s e
      = (if q = CHR 0x22 then concat (map f [1..<Suc m]) else [])"
    unfolding Cons
    by (simp add: plus_lazy_cls R f_def m_def o_def del: upt_Suc drop_drop)
  also have "\<dots> = (if q = CHR 0x22 \<and> 14 \<le> m \<and> key_tail (drop (m - 13) s1)
            then [(drop (m + 4) s1, e)] else [])"
    unfolding u by (auto simp: f_def add.commute)
  finally show ?thesis
    unfolding Cons R_def m_def by simp
qed



lemma rmatch_group23:
  "rmatch (Seq (Group ''2'' (Plus Lazy (Cls keypoints_class))) (Group ''3'' (Lit '']''))) n s2 e1
     = concat (map (\<lambda>j. if prefix '']'' (drop j s2)
                         then [(drop (Suc j) s2, (''3'', '']'') # (''2'', take j s2) # e1)] else [])
                   [1..<Suc (length (takeWhile keypoints_class s2))])"
proof -
  have "(\<lambda>j. rmatch (Group ''3'' (Lit '']'')) n (drop j s2)
               ((''2'', take (length s2 - length (drop j s2)) s2) # e1)) j
      = (\<lambda>j. if prefix '']'' (drop j s2)
              then [(drop (Suc j) s2, (''3'', '']'') # (''2'', take j s2) # e1)] else []) j"
    if "j \<in> set [1..<Suc (length (takeWhile keypoints_class s2))]" for j
  proof -
    from that have "j \<le> length (takeWhile keypoints_class s2)" by (simp del: upt_Suc)
    with length_takeWhile_le[of keypoints_class s2] have "j \<le> length s2" by (rule order_trans[rotated])
    then have t: "take (length s2 - length (drop j s2)) s2 = take j s2" by simp
    show ?thesis
    proof (cases "prefix '']'' (drop j s2)")
      case True
      then obtain y where y: "drop j s2 = CHR '']'' # y" by (auto simp: prefix_def)
      then have "drop (Suc j) s2 = y"
        by (metis drop_Suc tl_drop list.sel(3))
      with True y t show ?thesis by simp
    next
      case False
      then show ?thesis by simp
    qed
  qed
  then have "map (\<lambda>j. rmatch (Group ''3'' (Lit '']'')) n (drop j s2)
               ((''2'', take (length s2 - length (drop j s2)) s2) # e1))
               [1..<Suc (length (takeWhile keypoints_class s2))]
      = map (\<lambda>j. if prefix '']'' (drop j s2)
              then [(drop (Suc j) s2, (''3'', '']'') # (''2'', take j s2) # e1)] else [])
               [1..<Suc (length (takeWhile keypoints_class s2))]"
    by (intro map_cong refl) simp
  moreover have "rmatch (Seq (Group ''2'' (Plus Lazy (Cls keypoints_class))) (Group ''3'' (Lit '']''))) n s2 e1
      = concat (map (\<lambda>j. rmatch (Group ''3'' (Lit '']'')) n (drop j s2)
               ((''2'', take (length s2 - length (drop j s2)) s2) # e1))
               [1..<Suc (length (takeWhile keypoints_class s2))])"
    by (simp only: rmatch.simps(3) rmatch.simps(5)[of "''2''"] plus_lazy_cls map_map o_def prod.case)
  ultimately show ?thesis by (simp only:)
qed

lemma hd_group23:
  "(case concat (map (\<lambda>j. if prefix '']'' (drop j s2) then [F j] else [])
                     [1..<Suc (length (takeWhile C s2))]) of [] \<Rightarrow> None | x # _ \<Rightarrow> Some x)
   = (case s2 of [] \<Rightarrow> None
      | c # t \<Rightarrow> let g = takeWhile (\<lambda>x. x \<noteq> CHR '']'') t in
          if C c \<and> list_all C g \<and> length g < length t then Some (F (Suc (length g))) else None)"
proof (cases s2)
  case Nil
  then show ?thesis by simp
next
  case (Cons c t)
  define g where "g = takeWhile (\<lambda>x. x \<noteq> CHR '']'') t"
  define m2 where "m2 = length (takeWhile C s2)"
  define h where "h = (\<lambda>j. if prefix '']'' (drop j s2) then [F j] else [])"
  have fold: "concat (map (\<lambda>j. if prefix '']'' (drop j s2) then [F j] else [])
                     [1..<Suc (length (takeWhile C s2))]) = concat (map h [1..<Suc m2])"
    by (simp only: h_def m2_def)
  have tg: "t = g @ drop (length g) t"
    unfolding g_def by (simp add: dropWhile_eq_drop[symmetric])
  show ?thesis
  proof (cases "C c \<and> list_all C g \<and> length g < length t")
    case True
    then have "takeWhile C t = g @ takeWhile C (drop (length g) t)"
      by (subst tg, subst takeWhile_append2) (auto simp: list_all_iff)
    with True have le: "Suc (length g) \<le> m2" unfolding m2_def Cons by simp
    from True have "t ! length g = CHR '']''"
      using nth_length_takeWhile[of "\<lambda>x. x \<noteq> CHR '']''" t] by (simp add: g_def)
    with True have br: "drop (length g) t = CHR '']'' # drop (Suc (length g)) t"
      using Cons_nth_drop_Suc[of "length g" t] by simp
    have none: "h j = []" if "j \<in> set [1..<Suc (length g)]" for j
    proof -
      from that have "1 \<le> j" "j < Suc (length g)" by (simp_all del: upt_Suc)
      then obtain i where i: "j = Suc i" "i < length g" by (cases j) auto
      then have "drop j s2 = drop i t" unfolding Cons by simp
      also have "\<dots> = drop i g @ drop (length g) t"
        using i(2) by (subst tg) simp
      also have "\<dots> = g ! i # drop (Suc i) g @ drop (length g) t"
        using i(2) by (simp add: Cons_nth_drop_Suc)
      finally have d: "drop j s2 = g ! i # drop (Suc i) g @ drop (length g) t" .
      have "g ! i \<in> set g" using i(2) by simp
      then have "g ! i \<noteq> CHR '']''"
        unfolding g_def by (rule set_takeWhileD[THEN conjunct2])
      with d show ?thesis unfolding h_def by simp
    qed
    from le obtain k where k: "Suc m2 = Suc (length g) + Suc k"
      by (metis le_imp_less_Suc less_imp_Suc_add add_Suc_right)
    have "[1..<Suc (length g) + Suc k] = [1..<Suc (length g)] @ [Suc (length g)..<Suc (length g) + Suc k]"
      by (rule upt_add_eq_append) simp
    moreover have "[Suc (length g)..<Suc (length g) + Suc k]
        = Suc (length g) # [Suc (Suc (length g))..<Suc (length g) + Suc k]"
      by (rule upt_conv_Cons) simp
    ultimately have "[1..<Suc m2] = [1..<Suc (length g)] @ Suc (length g) # [Suc (Suc (length g))..<Suc m2]"
      unfolding k by simp
    then have "concat (map h [1..<Suc m2]) = h (Suc (length g)) @ concat (map h [Suc (Suc (length g))..<Suc m2])"
      using none by simp
    moreover have "h (Suc (length g)) = [F (Suc (length g))]"
      unfolding h_def Cons using br by simp
    ultimately have "concat (map h [1..<Suc m2])
        = F (Suc (length g)) # concat (map h [Suc (Suc (length g))..<Suc m2])"
      by (simp only: append_Cons append_Nil)
    then have "(case concat (map h [1..<Suc m2]) of [] \<Rightarrow> None | x # _ \<Rightarrow> Some x)
        = Some (F (Suc (length g)))"
      by (simp only: list.case)
    moreover have "(case s2 of [] \<Rightarrow> None
      | c # t \<Rightarrow> let g = takeWhile (\<lambda>x. x \<noteq> CHR '']'') t in
          if C c \<and> list_all C g \<and> length g < length t then Some (F (Suc (length g))) else None)
        = Some (F (Suc (length g)))"
      using True by (simp add: Cons g_def Let_def)
    ultimately show ?thesis by (simp only: fold)
  next
    case False
    have "h j = []" if j: "j \<in> set [1..<Suc m2]" for j
    proof (rule ccontr)
      assume "h j \<noteq> []"
      then have p: "prefix '']'' (drop j s2)" unfolding h_def by (auto split: if_splits)
      from j have "1 \<le> j" "j < Suc m2" by (simp_all del: upt_Suc)
      then obtain i where i: "j = Suc i" "Suc i \<le> m2" by (cases j) auto
      from p i obtain y where y: "drop i t = CHR '']'' # y" unfolding Cons by (auto simp: prefix_def)
      then have il: "i < length t" by (cases "i < length t") simp_all
      have "t = take i t @ drop i t" by simp
      then have tt: "t = take i t @ CHR '']'' # y" unfolding y .
      from i(2) have cc: "C c" and ic: "i \<le> length (takeWhile C t)"
        unfolding m2_def Cons by (auto split: if_splits)
      have "g = takeWhile (\<lambda>x. x \<noteq> CHR '']'') (take i t)"
        unfolding g_def by (subst tt, subst takeWhile_tail) simp_all
      then have gi: "set g \<subseteq> set (take i t)" "length g \<le> i"
        using set_takeWhileD[of _ "\<lambda>x. x \<noteq> CHR '']''" "take i t"]
          length_takeWhile_le[of "\<lambda>x. x \<noteq> CHR '']''" "take i t"] il
        by auto
      have "take i (takeWhile C t) = take i (take (length (takeWhile C t)) t)"
        by (simp add: takeWhile_eq_take[symmetric])
      also have "\<dots> = take i t" using ic by (simp add: min_def)
      finally have "set (take i t) \<subseteq> set (takeWhile C t)"
        using set_take_subset[of i "takeWhile C t"] by simp
      then have "\<forall>x \<in> set (take i t). C x"
        using set_takeWhileD[of _ C t] by blast
      with gi have "list_all C g" by (auto simp: list_all_iff)
      with cc gi(2) il False show False by simp
    qed
    then have "concat (map h [1..<Suc m2]) = []" by (simp del: upt_Suc)
    then have "(case concat (map h [1..<Suc m2]) of [] \<Rightarrow> None | x # _ \<Rightarrow> Some x) = None"
      by (simp only: list.case)
    moreover have "(case s2 of [] \<Rightarrow> None
      | c # t \<Rightarrow> let g = takeWhile (\<lambda>x. x \<noteq> CHR '']'') t in
          if C c \<and> list_all C g \<and> length g < length t then Some (F (Suc (length g))) else None)
        = None"
      using False by (simp add: Cons g_def Let_def)
    ultimately show ?thesis by (simp only: fold)
  qed
qed

lemma keypoints_re_unfold:
  "KEYPOINTS_KEY_VALUE_RE =
     Seq (Group ''1'' (Cat [Lit [CHR 0x22], Plus Lazy (Cls is_kw), Lit ''_keypoints_'', Digit,
                            Lit [CHR ''d'', CHR 0x22, CHR '':'', CHR '' '', CHR ''['']]))
         (Seq (Group ''2'' (Plus Lazy (Cls keypoints_class))) (Group ''3'' (Lit '']'')))"
proof -
  have "(\<lambda>c. py_isword c \<or> c = CHR ''_'') = is_kw" by (rule ext) (simp add: is_kw_def)
  then show ?thesis by (simp add: KEYPOINTS_KEY_VALUE_RE_def)
qed

lemma keypoints_group_names: "group_names KEYPOINTS_KEY_VALUE_RE = [''1'', ''2'', ''3'']"
  by (simp add: KEYPOINTS_KEY_VALUE_RE_def Plus_def Digit_def)

lemma match_here_keypoints:
  "match_here KEYPOINTS_KEY_VALUE_RE n s
     = map_option (\<lambda>(k, a, r). (r, ([''1'', ''2'', ''3''], [(''3'', '']''), (''2'', a), (''1'', k)])))
         (kp_find s)"
proof (cases s)
  case Nil
  then show ?thesis
    by (simp add: match_here_def KEYPOINTS_KEY_VALUE_RE_def Plus_def kp_find_def)
next
  case (Cons q s1)
  let ?m = "length (takeWhile is_kw s1)"
  define X where "X = Cat [Lit [CHR 0x22], Plus Lazy (Cls is_kw), Lit ''_keypoints_'', Digit,
                            Lit [CHR ''d'', CHR 0x22, CHR '':'', CHR '' '', CHR ''['']]"
  define G where "G = Seq (Group ''2'' (Plus Lazy (Cls keypoints_class))) (Group ''3'' (Lit '']''))"
  have K: "KEYPOINTS_KEY_VALUE_RE = Seq (Group ''1'' X) G"
    unfolding X_def G_def by (rule keypoints_re_unfold)
  have X: "rmatch X n s [] = (if q = CHR 0x22 \<and> 14 \<le> ?m \<and> key_tail (drop (?m - 13) s1)
            then [(drop (?m + 4) s1, [])] else [])"
    unfolding X_def rmatch_group1 Cons by simp
  show ?thesis
  proof (cases "q = CHR 0x22 \<and> 14 \<le> ?m \<and> key_tail (drop (?m - 13) s1)")
    case False
    with X have r: "rmatch (Seq (Group ''1'' X) G) n s [] = []"
      by (simp only: rmatch.simps) simp
    from False have k: "kp_find s = None"
      unfolding kp_find_def Cons by (auto simp: Let_def)
    show ?thesis unfolding match_here_def K r k by simp
  next
    case True
    let ?s2 = "drop (?m + 4) s1"
    have l: "length s - length ?s2 = ?m + 5"
    proof -
      from True obtain u where "drop (?m - 13) s1 = ''_keypoints_'' @ u" "length u \<ge> 6"
        unfolding key_tail_iff by auto
      then have "length (drop (?m - 13) s1) \<ge> 17" by simp
      then have "?m + 4 \<le> length s1" using True by simp
      then show ?thesis unfolding Cons by simp
    qed
    from X True have "rmatch (Seq (Group ''1'' X) G) n s []
        = rmatch G n ?s2 [(''1'', take (?m + 5) s)]"
      using l by (simp only: rmatch.simps) simp
    also have "\<dots> = concat (map (\<lambda>j. if prefix '']'' (drop j ?s2)
                         then [(drop (Suc j) ?s2, [(''3'', '']''), (''2'', take j ?s2), (''1'', take (?m + 5) s)])] else [])
                   [1..<Suc (length (takeWhile keypoints_class ?s2))])"
      unfolding G_def by (rule rmatch_group23)
    finally have L: "rmatch KEYPOINTS_KEY_VALUE_RE n s []
        = concat (map (\<lambda>j. if prefix '']'' (drop j ?s2)
                         then [(drop (Suc j) ?s2, [(''3'', '']''), (''2'', take j ?s2), (''1'', take (?m + 5) s)])] else [])
                   [1..<Suc (length (takeWhile keypoints_class ?s2))])"
      unfolding K .
    have c: "(case xs of [] \<Rightarrow> None | (s', e) # _ \<Rightarrow> Some (s', (ns, e)))
        = map_option (\<lambda>(s', e). (s', (ns, e))) (case xs of [] \<Rightarrow> None | x # _ \<Rightarrow> Some x)"
      for xs :: "(string \<times> groups) list" and ns :: "string list"
      by (cases xs) auto
    have "match_here KEYPOINTS_KEY_VALUE_RE n s
        = map_option (\<lambda>(s', e). (s', ([''1'', ''2'', ''3''], e)))
            (case ?s2 of [] \<Rightarrow> None
             | c # t \<Rightarrow> let g = takeWhile (\<lambda>x. x \<noteq> CHR '']'') t in
                 if keypoints_class c \<and> list_all keypoints_class g \<and> length g < length t
                 then Some (drop (Suc (Suc (length g))) ?s2,
                            [(''3'', '']''), (''2'', take (Suc (length g)) ?s2), (''1'', take (?m + 5) s)])
                 else None)"
      unfolding match_here_def keypoints_group_names c L hd_group23 ..
    also have "\<dots> = map_option (\<lambda>(k, a, r). (r, ([''1'', ''2'', ''3''], [(''3'', '']''), (''2'', a), (''1'', k)])))
         (kp_find s)"
    proof (cases ?s2)
      case Nil
      with True show ?thesis
        by (simp add: kp_find_def Cons Let_def)
    next
      case c2: (Cons c t)
      have "take (length (takeWhile (\<lambda>x. x \<noteq> CHR '']'') t)) t = takeWhile (\<lambda>x. x \<noteq> CHR '']'') t"
        by (rule takeWhile_eq_take[symmetric])
      with True c2 show ?thesis
        by (simp add: kp_find_def Cons Let_def)
    qed
    finally show ?thesis .
  qed
qed

lemma takeWhile_bracket_split:
  assumes "length (takeWhile (\<lambda>x. x \<noteq> CHR '']'') t) < length t"
  shows "t = takeWhile (\<lambda>x. x \<noteq> CHR '']'') t @ CHR '']'' # drop (Suc (length (takeWhile (\<lambda>x. x \<noteq> CHR '']'') t))) t"
proof -
  let ?g = "takeWhile (\<lambda>x. x \<noteq> CHR '']'') t"
  have "t = ?g @ drop (length ?g) t" by (simp add: dropWhile_eq_drop[symmetric])
  moreover have "t ! length ?g = CHR '']''"
    using nth_length_takeWhile[OF assms] by simp
  then have "drop (length ?g) t = CHR '']'' # drop (Suc (length ?g)) t"
    using Cons_nth_drop_Suc[OF assms] by simp
  ultimately show ?thesis by simp
qed

lemma kp_find_split:
  assumes "kp_find s = Some (k, a, r)"
  shows "s = k @ a @ CHR '']'' # r \<and> a \<noteq> [] \<and> list_all keypoints_class a
       \<and> CHR '']'' \<notin> set (tl a) \<and> k \<noteq> []"
proof -
  from assms obtain q s1 where s: "s = q # s1" by (cases s) (auto simp: kp_find_def)
  let ?m = "length (takeWhile is_kw s1)"
  from assms s obtain c t where ct: "drop (?m + 4) s1 = c # t"
    by (auto simp: kp_find_def Let_def split: if_splits list.splits)
  let ?g = "takeWhile (\<lambda>x. x \<noteq> CHR '']'') t"
  from assms s ct have c: "keypoints_class c" "list_all keypoints_class ?g" "length ?g < length t"
    and k: "k = take (?m + 5) s" and a: "a = c # ?g" and r: "r = drop (Suc (length ?g)) t"
    by (auto simp: kp_find_def Let_def split: if_splits)
  have "s = take (?m + 5) s @ drop (?m + 5) s" by simp
  also have "drop (?m + 5) s = c # t"
  proof -
    have "?m + 5 = Suc (?m + 4)" by simp
    then have "drop (?m + 5) s = drop (?m + 4) s1" unfolding s by (simp only: drop_Suc_Cons)
    with ct show ?thesis by simp
  qed
  also have "c # t = c # ?g @ CHR '']'' # r" using takeWhile_bracket_split[OF c(3)] r by simp
  finally have "s = k @ a @ CHR '']'' # r" using k a by simp
  moreover have "CHR '']'' \<notin> set ?g" using set_takeWhileD[of _ "\<lambda>x. x \<noteq> CHR '']''" t] by blast
  moreover have "k \<noteq> []" using k s by simp
  ultimately show ?thesis using a c by simp
qed

text \<open>
  The replacement that \<open>deindent_key_value\<close> computes for a match, and \<open>re.sub\<close> with
  the keypoints pattern as a recursion over the text.
\<close>

definition deindent :: "string \<Rightarrow> string" where
  "deindent a = py_strip (py_join '' '' (map py_strip (py_split NL a)))"

function slim :: "string \<Rightarrow> string" where
  "slim s = (case kp_find s of
       Some (k, a, r) \<Rightarrow> k @ deindent a @ CHR '']'' # slim r
     | None \<Rightarrow> (case s of [] \<Rightarrow> [] | c # t \<Rightarrow> c # slim t))"
  by pat_completeness auto
termination
proof (relation "measure length")
  show "wf (measure length)" by simp
next
  fix s x2 k y a r
  assume "kp_find s = Some x2" "(k, y) = x2" "(a, r) = y"
  then have "kp_find s = Some (k, a, r)" by simp
  from kp_find_split[OF this] have "length s = length k + length a + Suc (length r)"
    by (metis length_append length_Cons add.assoc)
  then show "(r, s) \<in> measure length" by simp
next
  fix s c t
  assume "s = c # t"
  then show "(t, s) \<in> measure length" by simp
qed

declare slim.simps [simp del]

lemma deindent_key_value_match:
  "deindent_key_value ([''1'', ''2'', ''3''], [(''3'', '']''), (''2'', a), (''1'', k)])
     = Inr (k @ deindent a @ '']'')"
  by (simp add: deindent_key_value_def match_group_def format_group_def deindent_def)

lemma re_sub_from_slim:
  "re_sub_from KEYPOINTS_KEY_VALUE_RE deindent_key_value n s = Inr (slim s)"
proof (induction s rule: slim.induct)
  case (1 s)
  show ?case
  proof (cases "kp_find s")
    case None
    then have m: "match_here KEYPOINTS_KEY_VALUE_RE n s = None" by (simp add: match_here_keypoints)
    show ?thesis
    proof (cases s)
      case Nil
      with m None show ?thesis by (subst re_sub_from.simps, subst slim.simps) simp
    next
      case (Cons c t)
      with 1(1)[OF None Cons] m None show ?thesis
        by (subst re_sub_from.simps, subst slim.simps) simp
    qed
  next
    case (Some x)
    obtain k a r where x: "x = (k, a, r)" by (cases x)
    with Some have f: "kp_find s = Some (k, a, r)" by simp
    then have m: "match_here KEYPOINTS_KEY_VALUE_RE n s
        = Some (r, ([''1'', ''2'', ''3''], [(''3'', '']''), (''2'', a), (''1'', k)]))"
      by (simp add: match_here_keypoints)
    from kp_find_split[OF f] have "length s = length k + length a + Suc (length r)"
      by (metis length_append length_Cons add.assoc)
    then have l: "length r < length s" by simp
    from 1(2)[OF Some x[symmetric] refl] have "re_sub_from KEYPOINTS_KEY_VALUE_RE deindent_key_value n r = Inr (slim r)" .
    with m l f show ?thesis
      by (subst re_sub_from.simps, subst slim.simps) (simp add: deindent_key_value_match)
  qed
qed

lemma slimindent_json_slim: "slimindent_json recordings = Inr (slim (json_dumps (JArr recordings)))"
  by (simp add: slimindent_json_def re_sub_def re_sub_from_slim)

definition key_text :: "string \<Rightarrow> char \<Rightarrow> string" where
  "key_text w d = CHR 0x22 # w @ ''_keypoints_'' @ [d] @ [CHR ''d'', CHR 0x22, CHR '':'', CHR '' '', CHR ''['']"

lemma kp_find_intro:
  assumes "w \<noteq> []" "list_all is_kw w" "py_isdigit d"
    and "keypoints_class c" "list_all keypoints_class g" "CHR '']'' \<notin> set g"
  shows "kp_find (key_text w d @ c # g @ CHR '']'' # r) = Some (key_text w d, c # g, r)"
proof -
  let ?s1 = "w @ ''_keypoints_'' @ [d] @ [CHR ''d'', CHR 0x22, CHR '':'', CHR '' '', CHR ''['']
             @ c # g @ CHR '']'' # r"
  let ?run = "w @ ''_keypoints_'' @ [d] @ [CHR ''d'']"
  have s: "key_text w d @ c # g @ CHR '']'' # r = CHR 0x22 # ?s1" by (simp add: key_text_def)
  have s1: "?s1 = ?run @ CHR 0x22 # ('': ['' @ c # g @ CHR '']'' # r)" by simp
  have "takeWhile is_kw ?s1 = ?run @ takeWhile is_kw (CHR 0x22 # ('': ['' @ c # g @ CHR '']'' # r))"
    apply (subst s1)
    apply (rule takeWhile_append2)
    using assms(2,3) is_kw_key_chars by (auto simp: list_all_iff)
  then have tw: "takeWhile is_kw ?s1 = ?run" using is_kw_key_chars(3) by simp
  have m: "length (takeWhile is_kw ?s1) = length w + 13" unfolding tw by simp
  have d1: "drop (length w + 13 - 13) ?s1 = ''_keypoints_'' @ [d] @ [CHR ''d'', CHR 0x22, CHR '':'', CHR '' '', CHR ''['']
             @ c # g @ CHR '']'' # r" by simp
  have kt: "key_tail (drop (length w + 13 - 13) ?s1)"
    unfolding d1 key_tail_iff using assms(3) by blast
  let ?A = "w @ ''_keypoints_'' @ [d] @ [CHR ''d'', CHR 0x22, CHR '':'', CHR '' '', CHR ''['']"
  let ?B = "c # g @ CHR '']'' # r"
  have dA: "drop (length xs) (xs @ ys) = ys" for xs ys :: string by simp
  have tA: "take (length xs) (xs @ ys) = xs" for xs ys :: string by simp
  have e: "?s1 = ?A @ ?B" by simp
  have lA: "length w + 13 + 4 = length ?A" by simp
  have d2: "drop (length w + 13 + 4) ?s1 = ?B"
    unfolding lA by (subst e) (rule dA)
  have lK: "length w + 13 + 5 = length (key_text w d)" by (simp add: key_text_def)
  have t: "take (length w + 13 + 5) (key_text w d @ ?B) = key_text w d"
    unfolding lK by (rule tA)
  have g: "takeWhile (\<lambda>x. x \<noteq> CHR '']'') (g @ CHR '']'' # r) = g"
    using assms(6) by (subst takeWhile_append2) auto
  have w14: "\<not> length w + 13 < 14" using assms(1) by (cases w) auto
  have lg: "length g < length (g @ CHR '']'' # r)" by simp
  have dg: "drop (Suc (length g)) (g @ CHR '']'' # r) = r" by simp
  show ?thesis
    unfolding kp_find_def s list.case m Let_def
    by (simp only: kt w14 d2 list.case t[unfolded s] g lg dg assms(4,5) simp_thms if_True if_False)
qed

lemma kp_find_elim:
  assumes "kp_find s = Some (k, a, r)"
  obtains w d c g where "k = key_text w d" "w \<noteq> []" "list_all is_kw w" "py_isdigit d"
    "a = c # g" "keypoints_class c" "list_all keypoints_class g" "CHR '']'' \<notin> set g"
    "s = k @ a @ CHR '']'' # r"
proof -
  from kp_find_split[OF assms] have sp: "s = k @ a @ CHR '']'' # r" and ane: "a \<noteq> []"
    and ac: "list_all keypoints_class a" and nb: "CHR '']'' \<notin> set (tl a)" by auto
  from assms obtain q s1 where s: "s = q # s1" by (cases s) (auto simp: kp_find_def)
  let ?m = "length (takeWhile is_kw s1)"
  from assms s have q: "q = CHR 0x22" and m14: "14 \<le> ?m" and kt: "key_tail (drop (?m - 13) s1)"
    and k: "k = take (?m + 5) s"
    by (auto simp: kp_find_def Let_def split: if_splits list.splits)
  from kt obtain d y where d: "py_isdigit d"
    and y: "drop (?m - 13) s1 = ''_keypoints_'' @ [d] @ [CHR ''d'', CHR 0x22, CHR '':'', CHR '' '', CHR ''[''] @ y"
    unfolding key_tail_iff by blast
  define w where "w = take (?m - 13) s1"
  have ml: "?m \<le> length s1" by (rule length_takeWhile_le)
  then have lw: "length w = ?m - 13" unfolding w_def by simp
  have "w = take (?m - 13) (take ?m s1)" unfolding w_def by (simp add: min_def)
  also have "take ?m s1 = takeWhile is_kw s1" by (rule takeWhile_eq_take[symmetric])
  finally have "set w \<subseteq> set (takeWhile is_kw s1)" using set_take_subset by metis
  then have wk: "list_all is_kw w" using set_takeWhileD[of _ is_kw s1] by (auto simp: list_all_iff)
  have wne: "w \<noteq> []" using lw m14 by auto
  have s1: "s1 = w @ ''_keypoints_'' @ [d] @ [CHR ''d'', CHR 0x22, CHR '':'', CHR '' '', CHR ''[''] @ y"
    unfolding w_def y[symmetric] by simp
  have "s = key_text w d @ y" unfolding s q key_text_def by (subst s1) simp
  moreover have "?m + 5 = length (key_text w d)" using lw m14 by (simp add: key_text_def)
  ultimately have kk: "k = key_text w d" unfolding k by simp
  obtain c g where a: "a = c # g" using ane by (cases a) auto
  with ac nb have "keypoints_class c" "list_all keypoints_class g" "CHR '']'' \<notin> set g" by auto
  with kk wne wk d a sp show ?thesis by (intro that)
qed

lemma kp_find_extend:
  assumes "kp_find s = Some (k, a, r)"
  shows "kp_find (k @ a @ CHR '']'' # r') = Some (k, a, r')"
proof -
  from assms obtain w d c g where "k = key_text w d" "w \<noteq> []" "list_all is_kw w" "py_isdigit d"
    "a = c # g" "keypoints_class c" "list_all keypoints_class g" "CHR '']'' \<notin> set g"
    by (rule kp_find_elim)
  then show ?thesis using kp_find_intro[of w d c g r'] by simp
qed

lemma kp_find_not_quote: "s = [] \<or> hd s \<noteq> CHR 0x22 \<Longrightarrow> kp_find s = None"
  by (cases s) (auto simp: kp_find_def)

lemma not_is_kw:
  "\<not> is_kw (CHR 0x22)" "\<not> is_kw CHR '':''" "\<not> is_kw CHR '']''" "\<not> is_kw CHR '' ''" "\<not> is_kw CHR ''[''"
  by (simp_all add: is_kw_def py_isword_def py_isdigit_def)

lemma key_text_suffix_quote:
  assumes "x @ vs = key_text w d" "x \<noteq> []" "vs \<noteq> []" "hd vs = CHR 0x22"
    and "list_all is_kw w" "py_isdigit d"
  shows "vs = [CHR 0x22, CHR '':'', CHR '' '', CHR ''['']"
proof -
  let ?W = "w @ ''_keypoints_'' @ [d] @ [CHR ''d'']"
  let ?Q = "[CHR 0x22, CHR '':'', CHR '' '', CHR ''['']"
  have W: "\<forall>c \<in> set ?W. is_kw c"
    using assms(5,6) is_kw_key_chars by (auto simp: list_all_iff)
  from assms(1,2) obtain x' where x: "x = CHR 0x22 # x'" and e: "x' @ vs = ?W @ ?Q"
    by (cases x) (auto simp: key_text_def)
  from e consider ts where "x' = ?W @ ts" "ts @ vs = ?Q" | ts where "x' @ ts = ?W" "vs = ts @ ?Q"
    unfolding append_eq_append_conv2 by blast
  then show ?thesis
  proof cases
    case 1
    from 1(2) assms(3,4) show ?thesis
      by (cases ts; cases vs) (auto simp: Cons_eq_append_conv append_eq_Cons_conv)
  next
    case 2
    show ?thesis
    proof (cases ts)
      case Nil
      with 2 show ?thesis by simp
    next
      case (Cons t ts')
      with 2 have "hd vs \<in> set ?W" by (metis hd_append2 list.sel(1) list.distinct(1) in_set_conv_decomp append.assoc append_Cons)
      with W assms(4) not_is_kw(1) show ?thesis by auto
    qed
  qed
qed

lemma no_cross:
  assumes "kp_find (x @ rest) = Some (k, a, r)" "x \<noteq> []"
    and "rest = CHR 0x22 # u @ z" "u \<noteq> []" "list_all is_kw u" "\<not> list_all keypoints_class u"
  shows "\<exists>r'. x = k @ a @ CHR '']'' # r' \<and> r = r' @ rest"
proof -
  from assms(1) obtain w d c g where k: "k = key_text w d" and w: "w \<noteq> []" "list_all is_kw w" "py_isdigit d"
    and a: "a = c # g" "keypoints_class c" "list_all keypoints_class g" "CHR '']'' \<notin> set g"
    and s: "x @ rest = k @ a @ CHR '']'' # r"
    by (rule kp_find_elim)
  from s have "x @ rest = (k @ a @ [CHR '']'']) @ r" by simp
  then obtain us where us0: "x = (k @ a @ [CHR '']'']) @ us \<and> us @ rest = r
      \<or> x @ us = k @ a @ [CHR '']''] \<and> rest = us @ r"
    unfolding append_eq_append_conv2 by blast
  show ?thesis
  proof (cases "x = (k @ a @ [CHR '']'']) @ us \<and> us @ rest = r")
    case True
    then show ?thesis by auto
  next
    case F1: False
    with us0 have c2: "x @ us = k @ a @ [CHR '']'']" "rest = us @ r" by auto
    show ?thesis
    proof (cases "us = []")
      case True
      with c2 show ?thesis by auto
    next
      case une: False
    with c2 assms(3) have hu: "hd us = CHR 0x22" by (cases us) auto
    from c2(1) obtain vs where vs0: "x = k @ vs \<and> vs @ us = a @ [CHR '']'']
        \<or> x @ vs = k \<and> us = vs @ a @ [CHR '']'']"
      unfolding append_eq_append_conv2 by blast
    have False
    proof (cases "x = k @ vs \<and> vs @ us = a @ [CHR '']'']")
      case False
      with vs0 have 2: "x @ vs = k" "us = vs @ a @ [CHR '']'']" by auto
      with False have "vs \<noteq> []" by auto
      note 2 = 2 this
      from 2(2,3) hu have "hd vs = CHR 0x22" by (cases vs) auto
      from key_text_suffix_quote[OF 2(1)[unfolded k] assms(2) 2(3) this w(2,3)]
      have "vs = [CHR 0x22, CHR '':'', CHR '' '', CHR ''['']" .
      with 2(2) c2(2) assms(3,4) have "hd u = CHR '':''"
        by (cases u) auto
      with assms(4,5) not_is_kw(2) show False by (cases u) auto
    next
      case True
      then have 1: "x = k @ vs" "vs @ us = a @ [CHR '']'']" by auto
      from 1(2) une hu obtain us' where us: "us = us' @ [CHR '']'']" and va: "vs @ us' = a"
        by (cases us rule: rev_cases) auto
      from us hu have "us' \<noteq> []" by (cases us') auto
      with us hu obtain t' where t': "us' = CHR 0x22 # t'" by (cases us') auto
      from va t' a have tc: "list_all keypoints_class t'" and tb: "CHR '']'' \<notin> set t'"
        by (cases vs; auto simp: list_all_iff)+
      from c2(2) us t' assms(3) have e: "u @ z = t' @ CHR '']'' # r" by simp
      from e obtain ws where ws0: "u = t' @ ws \<and> ws @ z = CHR '']'' # r \<or> u @ ws = t' \<and> z = ws @ CHR '']'' # r"
        unfolding append_eq_append_conv2 by blast
      show False
      proof (cases "u = t' @ ws \<and> ws @ z = CHR '']'' # r")
        case True
        then have 1: "u = t' @ ws" "ws @ z = CHR '']'' # r" by auto
        show False
        proof (cases ws)
          case Nil
          with 1 tc assms(6) show False by simp
        next
          case (Cons b ws')
          with 1 have "CHR '']'' \<in> set u" by auto
          with assms(5) not_is_kw(3) show False by (auto simp: list_all_iff)
        qed
      next
        case False
        with ws0 have "u @ ws = t'" by auto
        with tc have "list_all keypoints_class u" by (auto simp: list_all_iff)
        with assms(6) show False by simp
      qed
    qed
    then show ?thesis ..
    qed
  qed
qed

lemma slim_append:
  assumes "rest = CHR 0x22 # u @ z" "u \<noteq> []" "list_all is_kw u" "\<not> list_all keypoints_class u"
  shows "slim (pre @ rest) = slim pre @ slim rest"
proof (induction pre rule: slim.induct)
  case (1 s)
  show ?case
  proof (cases "kp_find s")
    case (Some y)
    obtain k a r where y: "y = (k, a, r)" by (cases y)
    with Some have f: "kp_find s = Some (k, a, r)" by simp
    from kp_find_split[OF f] have s: "s = k @ a @ CHR '']'' # r" by simp
    have "kp_find (s @ rest) = Some (k, a, r @ rest)"
      using kp_find_extend[OF f, of "r @ rest"] by (subst s) simp
    moreover from 1(2)[OF Some y[symmetric] refl] have "slim (r @ rest) = slim r @ slim rest" .
    ultimately show ?thesis
      using f by (subst slim.simps, subst (2) slim.simps) simp
  next
    case None
    show ?thesis
    proof (cases s)
      case Nil
      then show ?thesis by (subst (2) slim.simps) (simp add: kp_find_def)
    next
      case (Cons c t)
      have "kp_find (s @ rest) = None"
      proof (rule ccontr)
        assume "kp_find (s @ rest) \<noteq> None"
        then obtain k a r where f: "kp_find (s @ rest) = Some (k, a, r)" by auto
        from no_cross[OF f _ assms] Cons obtain r' where r': "s = k @ a @ CHR '']'' # r'" by auto
        from kp_find_extend[OF f, of r'] r' None show False by simp
      qed
      moreover from 1(1)[OF None Cons] have "slim (t @ rest) = slim t @ slim rest" .
      ultimately show ?thesis
        using None Cons by (subst slim.simps, subst (2) slim.simps) simp
    qed
  qed
qed

section \<open>Flat arrays of numbers\<close>

text \<open>
  \<open>finite_number\<close> holds of an integer and of a float whose text consists of digits,
  a point, an exponent and signs (not of \<open>NaN\<close> and the infinities); \<open>single_line\<close> is
  the array \<open>[v0, v1, ...]\<close> on one line; \<open>ascii_word\<close> is a letter, a digit or an
  underscore of ASCII.
\<close>

definition num_char :: "char \<Rightarrow> bool" where
  "num_char c = (py_isdigit c \<or> c = CHR ''.'' \<or> c = CHR ''e'' \<or> c = CHR ''+'' \<or> c = CHR ''-'')"

definition finite_number :: "json \<Rightarrow> bool" where
  "finite_number v = (case v of JInt i \<Rightarrow> True | JFloat t \<Rightarrow> t \<noteq> [] \<and> list_all num_char t | _ \<Rightarrow> False)"

definition single_line :: "json list \<Rightarrow> string" where
  "single_line vs = ''['' @ py_join '', '' (map (dumps 0) vs) @ '']''"

definition ascii_word :: "char \<Rightarrow> bool" where
  "ascii_word c = (py_isdigit c \<or> (CHR ''A'' \<le> c \<and> c \<le> CHR ''Z'') \<or> (CHR ''a'' \<le> c \<and> c \<le> CHR ''z'')
     \<or> c = CHR ''_'')"

lemma py_strip_pad:
  assumes "list_all py_isspace a" "list_all py_isspace b" "t \<noteq> []"
    and "\<not> py_isspace (hd t)" "\<not> py_isspace (last t)"
  shows "py_strip (a @ t @ b) = t"
proof -
  have "dropWhile py_isspace (a @ t @ b) = dropWhile py_isspace (t @ b)"
    using assms(1) by (intro dropWhile_append2) (simp add: list_all_iff)
  also have "\<dots> = t @ b" using assms(3,4) by (cases t) auto
  finally have 1: "dropWhile py_isspace (a @ t @ b) = t @ b" .
  have "dropWhile py_isspace (rev b @ rev t) = dropWhile py_isspace (rev t)"
    using assms(2) by (intro dropWhile_append2) (simp add: list_all_iff)
  also have "\<dots> = rev t" using assms(3,5) by (cases t rule: rev_cases) auto
  finally show ?thesis unfolding py_strip_def 1 by simp
qed

lemma py_strip_spaces: "list_all py_isspace a \<Longrightarrow> py_strip a = []"
proof -
  assume "list_all py_isspace a"
  then have d: "dropWhile py_isspace a = []" by (induction a) auto
  show ?thesis unfolding py_strip_def d by simp
qed

lemma py_join_Cons: "zs \<noteq> [] \<Longrightarrow> py_join sep (x # zs) = x @ sep @ py_join sep zs"
  by (cases zs) auto

lemma py_join_snoc: "xs \<noteq> [] \<Longrightarrow> py_join sep (xs @ [[]]) = py_join sep xs @ sep"
proof (induction xs)
  case Nil
  then show ?case by simp
next
  case (Cons x xs)
  show ?case
  proof (cases "xs = []")
    case True
    then show ?thesis by simp
  next
    case False
    with Cons show ?thesis by (simp add: py_join_Cons)
  qed
qed

lemma py_split_no_sep: "sep \<notin> set x \<Longrightarrow> py_split sep x = [x]"
  by (induction x) auto

lemma py_split_append: "sep \<notin> set x \<Longrightarrow> py_split sep (x @ sep # y) = x # py_split sep y"
  by (induction x) auto

lemma py_split_nonempty: "py_split sep x \<noteq> []"
  by (induction x) (auto split: list.splits)

fun commas :: "string list \<Rightarrow> string list" where
  "commas [] = []"
| "commas [t] = [t]"
| "commas (t # t' # ts) = (t @ '','') # commas (t' # ts)"

lemma commas_nonempty: "ts \<noteq> [] \<Longrightarrow> commas ts \<noteq> []"
  by (induction ts rule: commas.induct) auto

lemma py_join_commas: "py_join '' '' (commas ts) = py_join '', '' ts"
proof (induction ts rule: commas.induct)
  case 1
  then show ?case by simp
next
  case (2 t)
  then show ?case by simp
next
  case (3 t t' ts)
  have "commas (t' # ts) \<noteq> []" by (rule commas_nonempty) simp
  from py_join_Cons[OF this, of "'' ''" "t @ '',''"] 3 show ?case by simp
qed

lemma py_split_body:
  assumes "\<forall>t \<in> set ts. NL \<notin> set t" "NL \<notin> set ind" "ts \<noteq> []"
  shows "py_split NL (ind @ py_join ('','' @ NL # ind) ts @ NL # y)
       = map (\<lambda>t. ind @ t) (commas ts) @ py_split NL y"
  using assms
proof (induction ts rule: commas.induct)
  case 1
  then show ?case by simp
next
  case (2 t)
  then have "NL \<notin> set (ind @ t)" by simp
  from py_split_append[OF this, of y] show ?case by simp
next
  case (3 t t' ts)
  then have "NL \<notin> set (ind @ t @ '','')" by simp
  from py_split_append[OF this, of "ind @ py_join ('','' @ NL # ind) (t' # ts) @ NL # y"] 3
  show ?case by simp
qed

lemma py_join_pad:
  "xs \<noteq> [] \<Longrightarrow> py_join sep ([] # xs @ [[]]) = sep @ py_join sep xs @ sep"
  using py_join_Cons[of "xs @ [[]]" sep "[]"] py_join_snoc[of xs sep] by simp

lemma group_loop_verbose:
  "snd (group_loop isfile re v fs out idx) = snd (group_loop isfile re v' fs out' idx)"
proof (induction fs arbitrary: out out' idx)
  case Nil
  then show ?case by simp
next
  case (Cons p fs)
  note a = Cons[where out = out and out' = out']
  note b = Cons[where out = "out @ [ignored_message p]" and out' = out']
  note c = Cons[where out = out and out' = "out' @ [ignored_message p]"]
  note d = Cons[where out = "out @ [ignored_message p]" and out' = "out' @ [ignored_message p]"]
  show ?case
    using a b c d by (auto split: option.splits sum.splits)
qed

lemma group_files_verbose:
  "snd (group_files isfile fs re v) = snd (group_files isfile fs re v')"
  using group_loop_verbose[of isfile re v fs "[]" "[]" v' "[]"]
  by (auto simp: group_files_def split: prod.splits sum.splits)

lemma those_None_all:
  "b \<noteq> [] \<Longrightarrow> those (map (\<lambda>(f, p). map_option (\<lambda>i. (i, p)) f) (map (\<lambda>p. (None, p)) b)) = None"
  by (cases b) auto

lemma sort_frame_files_idem:
  assumes "sort_frame_files b = Inr b'"
  shows "sort_frame_files b' = Inr b'"
proof (cases "those (map (\<lambda>(f, p). map_option (\<lambda>i. (i, p)) f) b)")
  case (Some xs)
  with assms have b': "b' = map (\<lambda>(i, p). (Some i, p)) (sort xs)"
    by (simp add: sort_frame_files_def)
  have t: "those (map (\<lambda>(f, p). map_option (\<lambda>i. (i, p)) f) b') = Some (sort xs)"
    unfolding b' by (rule iffD2[OF those_frames refl])
  have ss: "sort (sort xs) = sort xs" by (simp add: sorted_sort_id)
  show ?thesis
    apply (simp only: sort_frame_files_def t option.case ss)
    apply (simp only: b')
    done
next
  case None
  with assms have b': "b' = map (\<lambda>p. (None, p)) (sort (map snd b))"
    by (auto simp: sort_frame_files_def split: if_splits)
  show ?thesis
  proof (cases "b = []")
    case True
    with b' show ?thesis by (simp add: sort_frame_files_def)
  next
    case False
    then have "sort (map snd b) \<noteq> []" by (metis length_0_conv length_map length_sort)
    from those_None_all[OF this]
    have n: "those (map (\<lambda>(f, p). map_option (\<lambda>i. (i, p)) f) b') = None" unfolding b' .
    have la: "list_all (\<lambda>t. fst t = None) b'" unfolding b' by (simp add: list_all_iff)
    have "map snd b' = sort (map snd b)" unfolding b' by (simp add: o_def)
    then have sm: "sort (map snd b') = sort (map snd b)" by (simp add: sorted_sort_id)
    show ?thesis
      apply (simp only: sort_frame_files_def n option.case la if_True sm)
      apply (simp only: b')
      done
  qed
qed


lemma group_loop_paths:
  assumes "group_loop isfile re v fs out idx = (out', Inr idx')"
  shows "mset (map snd (entries idx'))
          = mset (map snd (entries idx)) + mset (filter (\<lambda>p. isfile p \<and> re_search re p \<noteq> None) fs)"
  using assms
proof (induction fs arbitrary: out idx)
  case Nil
  then show ?case by simp
next
  case (Cons p fs)
  show ?case
  proof (cases "isfile p \<and> re_search re p \<noteq> None")
    case False
    with Cons.prems(1) have "group_loop isfile re v fs (if isfile p \<and> v then out @ [ignored_message p] else out) idx
        = (out', Inr idx')"
      by (cases "re_search re p") (auto split: if_splits)
    from Cons.IH[OF this] False show ?thesis by auto
  next
    case True
    then obtain m where f: "isfile p" and m: "re_search re p = Some m" by auto
    with Cons.prems(1) obtain k idx1 where k: "extract_regex_group_fields m = Inr k"
      and a: "add_frame_file idx k p = Inr idx1"
      and l: "group_loop isfile re v fs out idx1 = (out', Inr idx')"
      by (auto split: sum.splits)
    obtain sid cam w h fr where kk: "k = (sid, cam, w, h, fr)" by (cases k)
    from entries_add_frame_file[OF a[unfolded kk]]
    have "mset (map snd (entries idx1)) = mset (map snd (entries idx)) + {#p#}"
      by simp
    with Cons.IH[OF l] True show ?thesis by simp
  qed
qed

lemma group_files_paths:
  assumes "group_files isfile fs re v = (out, Inr idx)"
  shows "mset (map snd (entries idx)) = mset (filter (\<lambda>p. isfile p \<and> re_search re p \<noteq> None) fs)"
    and "\<forall>b \<in> set (buckets idx). sort_frame_files b = Inr b"
proof -
  from assms obtain idx0 where l: "group_loop isfile re v fs [] [] = (out, Inr idx0)"
    and s: "sort_index idx0 = Inr idx"
    by (auto simp: group_files_def split: prod.splits sum.splits)
  from group_loop_paths[OF l]
  have e0: "mset (map snd (entries idx0)) = mset (filter (\<lambda>p. isfile p \<and> re_search re p \<noteq> None) fs)"
    by (simp add: entries_def)
  note idx = sort_index_Inr[OF s]
  have "mset (entries idx) = mset (entries idx0)"
    unfolding idx by (intro entries_sorted) (simp add: sort_bucket_mset)
  then have "mset (map snd (entries idx)) = mset (map snd (entries idx0))" by simp
  with e0 show "mset (map snd (entries idx)) = mset (filter (\<lambda>p. isfile p \<and> re_search re p \<noteq> None) fs)"
    by simp
  from s have a: "list_all (\<lambda>b. case sort_frame_files b of Inr b' \<Rightarrow> True | Inl x \<Rightarrow> False) (buckets idx0)"
    by (auto simp: sort_index_def split: if_splits)
  have b: "buckets idx = map sort_bucket (buckets idx0)" unfolding idx by (rule buckets_sorted)
  show "\<forall>b \<in> set (buckets idx). sort_frame_files b = Inr b"
  proof
    fix c assume "c \<in> set (buckets idx)"
    then obtain c0 where c0: "c0 \<in> set (buckets idx0)" and c: "c = sort_bucket c0" unfolding b by auto
    from a c0 obtain c1 where c1: "sort_frame_files c0 = Inr c1"
      by (cases "sort_frame_files c0") (auto simp: list_all_iff)
    then have "c = c1" by (simp add: c sort_bucket_def)
    with sort_frame_files_idem[OF c1] show "sort_frame_files c = Inr c" by simp
  qed
qed

definition bucket_loads :: "(string \<Rightarrow> error + json) \<Rightarrow> frame_file list \<Rightarrow> bool" where
  "bucket_loads load b = list_all (\<lambda>t. case load (snd t) of Inr d \<Rightarrow> True | Inl x \<Rightarrow> False) b"

lemma load_frames_total: "bucket_loads load b \<Longrightarrow> \<exists>fd. load_frames load b acc = Inr fd"
proof (induction b arbitrary: acc)
  case Nil
  then show ?case by simp
next
  case (Cons t b)
  obtain f p where t: "t = (f, p)" by (cases t)
  from Cons.prems t obtain d where d: "load p = Inr d" and b: "bucket_loads load b"
    by (auto simp: bucket_loads_def split: sum.splits)
  from Cons.IH[OF b] d t show ?case by simp
qed

lemma load_recording_total:
  assumes "sort_frame_files b = Inr b" "bucket_loads load b"
  shows "\<exists>r. load_recording load b sid cam w h = Inr r"
proof -
  from load_frames_total[OF assms(2), of "[]"] obtain fd where "load_frames load b [] = Inr fd" ..
  with assms(1) show ?thesis by (simp add: load_recording_def)
qed

lemma load_resolutions_total:
  assumes "\<forall>rb \<in> set r2f. sort_frame_files (snd rb) = Inr (snd rb) \<and> bucket_loads load (snd rb)"
  shows "\<exists>rs. load_resolutions load sid cam False r2f out recs = (out, Inr rs)"
  using assms
proof (induction r2f arbitrary: recs)
  case Nil
  then show ?case by simp
next
  case (Cons rb r2f)
  obtain w h b where rb: "rb = ((w, h), b)" by (cases rb) auto
  from Cons.prems rb have "sort_frame_files b = Inr b" "bucket_loads load b" by auto
  from load_recording_total[OF this, of sid cam w h] obtain r where
    r: "load_recording load b sid cam w h = Inr r" ..
  from Cons.prems have "\<forall>rb \<in> set r2f. sort_frame_files (snd rb) = Inr (snd rb) \<and> bucket_loads load (snd rb)"
    by simp
  from Cons.IH[OF this, of "recs @ [r]"] r rb show ?case by simp
qed

lemma load_cameras_total:
  assumes "\<forall>cr \<in> set c2r. \<forall>rb \<in> set (snd cr). sort_frame_files (snd rb) = Inr (snd rb) \<and> bucket_loads load (snd rb)"
  shows "\<exists>rs. load_cameras load sid False c2r cams out recs = (out, Inr rs)"
proof (induction cams arbitrary: recs)
  case Nil
  then show ?case by simp
next
  case (Cons cam cams)
  let ?r2f = "case map_of c2r cam of None \<Rightarrow> [] | Some r \<Rightarrow> r"
  have "\<forall>rb \<in> set ?r2f. sort_frame_files (snd rb) = Inr (snd rb) \<and> bucket_loads load (snd rb)"
  proof (cases "map_of c2r cam")
    case None
    then show ?thesis by simp
  next
    case (Some r)
    then have "(cam, r) \<in> set c2r" by (rule map_of_SomeD)
    with assms Some show ?thesis by fastforce
  qed
  from load_resolutions_total[OF this, of sid cam out recs] obtain rs where
    "load_resolutions load sid cam False ?r2f out recs = (out, Inr rs)" ..
  with Cons[of rs] show ?case by simp
qed

lemma write_sessions_total:
  assumes "\<forall>b \<in> set (buckets idx). sort_frame_files b = Inr b \<and> bucket_loads load b"
    and "\<forall>sc \<in> set idx. \<exists>cs. sorted_cameras (map fst (snd sc)) = Inr cs"
  shows "\<exists>bodies. length bodies = length idx
      \<and> write_sessions load output_dir False idx out w
          = (out, w @ zip (map (\<lambda>sc. output_filename (fst sc) output_dir) idx) bodies, None)"
  using assms
proof (induction idx arbitrary: w)
  case Nil
  then show ?case by simp
next
  case (Cons sc idx)
  obtain sid c2r where sc: "sc = (sid, c2r)" by (cases sc)
  from Cons.prems(2) sc obtain cs where cs: "sorted_cameras (map fst c2r) = Inr cs" by auto
  have "\<forall>cr \<in> set c2r. \<forall>rb \<in> set (snd cr). sort_frame_files (snd rb) = Inr (snd rb) \<and> bucket_loads load (snd rb)"
  proof (intro ballI)
    fix cr rb assume "cr \<in> set c2r" "rb \<in> set (snd cr)"
    then have "snd rb \<in> set (buckets (sc # idx))"
      unfolding sc buckets_def by (auto simp: case_prod_unfold)
    with Cons.prems(1) show "sort_frame_files (snd rb) = Inr (snd rb) \<and> bucket_loads load (snd rb)" by blast
  qed
  from load_cameras_total[OF this, of sid cs out "[]"] obtain rs where
    rs: "load_cameras load sid False c2r cs out [] = (out, Inr rs)" ..
  from slimindent_json_total obtain body where body: "slimindent_json rs = Inr body" by blast
  have "\<forall>b \<in> set (buckets idx). sort_frame_files b = Inr b \<and> bucket_loads load b"
    using Cons.prems(1) unfolding buckets_Cons by simp
  moreover have "\<forall>sc \<in> set idx. \<exists>cs. sorted_cameras (map fst (snd sc)) = Inr cs"
    using Cons.prems(2) by simp
  ultimately obtain bodies where l: "length bodies = length idx"
    and w: "write_sessions load output_dir False idx out (w @ [(output_filename sid output_dir, body)])
      = (out, (w @ [(output_filename sid output_dir, body)])
              @ zip (map (\<lambda>sc. output_filename (fst sc) output_dir) idx) bodies, None)"
    using Cons.IH[of "w @ [(output_filename sid output_dir, body)]"] by blast
  have "write_sessions load output_dir False (sc # idx) out w
      = (out, w @ zip (map (\<lambda>sc. output_filename (fst sc) output_dir) (sc # idx)) (body # bodies), None)"
    unfolding sc by (simp add: cs rs body w write_wrapper_def)
  with l show ?case by (intro exI[of _ "body # bodies"]) simp
qed

section \<open>Claim on the output files\<close>

text \<open>
  C7: when grouping raised nothing and every input file loads, a run without \<open>verbose\<close>
  whose sessions have sortable camera names writes one file per session, in the order of
  the index, named \<open><session_id>.openpose.json\<close>, or \<open>session.openpose.json\<close> for the
  session \<open>None\<close>, joined to the output directory when one is given. When the pattern has
  neither an \<open>id\<close> nor a \<open>camera\<close> group, the index is empty or has the one session \<open>None\<close>
  with the one camera \<open>None\<close>, which holds every input path that is a file and matches,
  and a run without \<open>verbose\<close> writes \<open>session.openpose.json\<close> and nothing else. With
  \<open>verbose\<close> the same run writes no file: the progress line of the session loop joins
  the camera names with \<open>', '.join\<close>, which raises \<open>TypeError\<close> on the camera \<open>None\<close>.
\<close>

theorem session_file_names_and_the_verbose_failure:
  assumes "group_files isfile filenames filename_re False = (out, Inr idx)"
    and "\<forall>p \<in> set filenames. isfile p \<longrightarrow> (\<exists>doc. load p = Inr doc)"
  shows "((\<forall>sc \<in> set idx. \<exists>cs. sorted_cameras (map fst (snd sc)) = Inr cs) \<longrightarrow>
      (\<exists>bodies. length bodies = length idx \<and>
         wrap_json_frames isfile load filenames output_dir filename_re False
           = (out, zip (map (\<lambda>sc. let name = (case fst sc of Some s \<Rightarrow> s | None \<Rightarrow> ''session'') @ ''.openpose.json''
                                   in case output_dir of None \<Rightarrow> name | Some d \<Rightarrow> path_join d name) idx)
                       bodies, None)))
   \<and> (''id'' \<notin> set (group_names filename_re) \<and> ''camera'' \<notin> set (group_names filename_re) \<longrightarrow>
        (idx = [] \<or> (\<exists>r2f. idx = [(None, [(None, r2f)])]))
        \<and> mset (map snd (entries idx))
            = mset (filter (\<lambda>p. isfile p \<and> re_search filename_re p \<noteq> None) filenames)
        \<and> (idx \<noteq> [] \<longrightarrow>
             (\<exists>body. wrap_json_frames isfile load filenames None filename_re False
                       = (out, [(''session.openpose.json'', body)], None))
           \<and> (\<exists>out'. wrap_json_frames isfile load filenames output_dir filename_re True
                       = (out', [], Some (TypeError_sequence_item 0)))))"
proof -
  note paths = group_files_paths[OF assms(1)]
  have loads: "\<forall>b \<in> set (buckets idx). sort_frame_files b = Inr b \<and> bucket_loads load b"
  proof
    fix b assume b: "b \<in> set (buckets idx)"
    from bucket_in_entries[OF b] obtain sid cam res where
      "set (bucket_entries sid cam res b) \<subseteq> set (entries idx)" by blast
    then have "snd ` set b \<subseteq> snd ` set (entries idx)"
      by (force simp: bucket_entries_def)
    also have "\<dots> = set (filter (\<lambda>p. isfile p \<and> re_search filename_re p \<noteq> None) filenames)"
      using mset_eq_setD[OF paths(1)] by simp
    finally have "\<forall>t \<in> set b. snd t \<in> set filenames \<and> isfile (snd t)" by auto
    with assms(2) have "bucket_loads load b"
      by (auto simp: bucket_loads_def list_all_iff split: sum.splits)
    with paths(2) b show "sort_frame_files b = Inr b \<and> bucket_loads load b" by simp
  qed
  have names: "(\<lambda>sc. output_filename (fst sc) od)
      = (\<lambda>sc. let name = (case fst sc of Some s \<Rightarrow> s | None \<Rightarrow> ''session'') @ ''.openpose.json''
               in case od of None \<Rightarrow> name | Some d \<Rightarrow> path_join d name)" for od
    by (simp add: output_filename_def Let_def)
  have A: "\<exists>bodies. length bodies = length idx \<and>
         wrap_json_frames isfile load filenames od filename_re False
           = (out, zip (map (\<lambda>sc. let name = (case fst sc of Some s \<Rightarrow> s | None \<Rightarrow> ''session'') @ ''.openpose.json''
                                   in case od of None \<Rightarrow> name | Some d \<Rightarrow> path_join d name) idx)
                       bodies, None)"
    if "\<forall>sc \<in> set idx. \<exists>cs. sorted_cameras (map fst (snd sc)) = Inr cs" for od
    using write_sessions_total[OF loads that, of od out "[]"]
    unfolding names by (simp add: wrap_json_frames_def assms(1))
  have B: "(idx = [] \<or> (\<exists>r2f. idx = [(None, [(None, r2f)])]))
        \<and> mset (map snd (entries idx))
            = mset (filter (\<lambda>p. isfile p \<and> re_search filename_re p \<noteq> None) filenames)
        \<and> (idx \<noteq> [] \<longrightarrow>
             (\<exists>body. wrap_json_frames isfile load filenames None filename_re False
                       = (out, [(''session.openpose.json'', body)], None))
           \<and> (\<exists>out'. wrap_json_frames isfile load filenames output_dir filename_re True
                       = (out', [], Some (TypeError_sequence_item 0))))"
    if n: "''id'' \<notin> set (group_names filename_re)" "''camera'' \<notin> set (group_names filename_re)"
  proof -
    from group_files_implicit[OF n assms(1)]
    have shape: "idx = [] \<or> (\<exists>r2f. idx = [(None, [(None, r2f)])])" by blast
    have C: "(\<exists>body. wrap_json_frames isfile load filenames None filename_re False
                       = (out, [(''session.openpose.json'', body)], None))
           \<and> (\<exists>out'. wrap_json_frames isfile load filenames output_dir filename_re True
                       = (out', [], Some (TypeError_sequence_item 0)))" if "idx \<noteq> []"
    proof -
      from shape that obtain r2f where idx: "idx = [(None, [(None, r2f)])]" by blast
      have sc: "\<forall>sc \<in> set idx. \<exists>cs. sorted_cameras (map fst (snd sc)) = Inr cs"
        unfolding idx by (simp add: sorted_cameras_def)
      from A[OF sc, of None] obtain bodies where l: "length bodies = length idx"
        and w: "wrap_json_frames isfile load filenames None filename_re False
           = (out, zip (map (\<lambda>sc. let name = (case fst sc of Some s \<Rightarrow> s | None \<Rightarrow> ''session'') @ ''.openpose.json''
                                   in case None of None \<Rightarrow> name | Some d \<Rightarrow> path_join d name) idx)
                       bodies, None)" by blast
      from l idx obtain body where "bodies = [body]" by (cases bodies) auto
      with w idx have 1: "wrap_json_frames isfile load filenames None filename_re False
                       = (out, [(''session.openpose.json'', body)], None)" by simp
      obtain out' r where g: "group_files isfile filenames filename_re True = (out', r)"
        by (cases "group_files isfile filenames filename_re True")
      from group_files_verbose[of isfile filenames filename_re True False] g assms(1)
      have "r = Inr idx" by simp
      with g have "wrap_json_frames isfile load filenames output_dir filename_re True
                       = (out', [], Some (TypeError_sequence_item 0))"
        by (simp add: wrap_json_frames_def idx join_cameras_def)
      with 1 show ?thesis by blast
    qed
    from shape paths(1) C show ?thesis by blast
  qed
  from A[of output_dir] B show ?thesis by blast
qed


theorem session_file_names_and_the_verbose_failure_witness:
  "group_files (\<lambda>p. p \<noteq> ''7x8'') [''3x4'', ''bad'', ''5x6'', ''7x8''] loose_re False
     = ([], Inr [(None, [(None, [((Some 3, None), [(Some 4, ''3x4'')]), ((Some 5, None), [(Some 6, ''5x6'')])])])])
 \<and> (\<exists>body. wrap_json_frames (\<lambda>p. p \<noteq> ''7x8'') (\<lambda>p. Inr JNull) [''3x4'', ''bad'', ''5x6'', ''7x8''] None loose_re False
        = ([], [(''session.openpose.json'', body)], None))
 \<and> (\<exists>out'. wrap_json_frames (\<lambda>p. p \<noteq> ''7x8'') (\<lambda>p. Inr JNull) [''3x4'', ''bad'', ''5x6'', ''7x8''] None loose_re True
        = (out', [], Some (TypeError_sequence_item 0)))
 \<and> (\<exists>b1 b2. wrap_json_frames (\<lambda>p. True) (\<lambda>p. Inr JNull)
        [''A_c_6x4_0_keypoints.json'', ''B_c_6x4_0_keypoints.json''] (Some ''out'') FILENAME_OPFILE_RE False
        = ([], [(''out/A.openpose.json'', b1), (''out/B.openpose.json'', b2)], None))"
proof -
  let ?isfile = "\<lambda>p. p \<noteq> ''7x8''"
  let ?load = "\<lambda>p :: string. (Inr JNull :: error + json)"
  let ?fs = "[''3x4'', ''bad'', ''5x6'', ''7x8'']"
  let ?idx = "[(None :: string option, [(None :: string option,
                 [((Some (3::int), None :: int option), [(Some (4::int), ''3x4'')]),
                  ((Some 5, None), [(Some 6, ''5x6'')])])])]"
  note T = session_file_names_and_the_verbose_failure
  have g: "group_files ?isfile ?fs loose_re False = ([], Inr ?idx)"
    by code_simp
  have l: "\<forall>p \<in> set ?fs. ?isfile p \<longrightarrow> (\<exists>doc. ?load p = Inr doc)" by simp
  have n: "''id'' \<notin> set (group_names loose_re) \<and> ''camera'' \<notin> set (group_names loose_re)"
    by code_simp
  have ne: "?idx \<noteq> []" by simp
  note B = T[OF g l, of None, THEN conjunct2, THEN mp, OF n, THEN conjunct2, THEN conjunct2, THEN mp, OF ne]
  let ?fs2 = "[''A_c_6x4_0_keypoints.json'', ''B_c_6x4_0_keypoints.json'']"
  let ?idx2 = "[(Some ''A'', [(Some ''c'', [((Some (6::int), Some (4::int)), [(Some (0::int), ''A_c_6x4_0_keypoints.json'')])])]),
                (Some ''B'', [(Some ''c'', [((Some 6, Some 4), [(Some 0, ''B_c_6x4_0_keypoints.json'')])])])]"
  have g2: "group_files (\<lambda>p. True) ?fs2 FILENAME_OPFILE_RE False = ([], Inr ?idx2)"
    by code_simp
  have l2: "\<forall>p \<in> set ?fs2. True \<longrightarrow> (\<exists>doc. ?load p = Inr doc)" by simp
  have c2: "\<forall>sc \<in> set ?idx2. \<exists>cs. sorted_cameras (map fst (snd sc)) = Inr cs"
    by (simp add: sorted_cameras_def)
  from T[OF g2 l2, of "Some ''out''", THEN conjunct1, THEN mp, OF c2]
  obtain bodies where lb: "length bodies = length ?idx2"
    and w: "wrap_json_frames (\<lambda>p. True) ?load ?fs2 (Some ''out'') FILENAME_OPFILE_RE False
      = ([], zip (map (\<lambda>sc. let name = (case fst sc of Some s \<Rightarrow> s | None \<Rightarrow> ''session'') @ ''.openpose.json''
                              in case Some ''out'' of None \<Rightarrow> name | Some d \<Rightarrow> path_join d name) ?idx2)
                 bodies, None)" by blast
  from lb obtain b1 b2 where "bodies = [b1, b2]"
    by (cases bodies; cases "tl bodies"; cases "tl (tl bodies)") auto
  with w have A: "wrap_json_frames (\<lambda>p. True) ?load ?fs2 (Some ''out'') FILENAME_OPFILE_RE False
      = ([], [(''out/A.openpose.json'', b1), (''out/B.openpose.json'', b2)], None)"
    by (simp add: path_join_def)
  from g B A show ?thesis by blast
qed

lemma digit_char_isdigit: "k < 10 \<Longrightarrow> py_isdigit (digit_char k)"
  by (simp add: digit_char_def py_isdigit_def less_eq_char_def)

lemma char_eq_nat: "(c = d) = ((of_char c :: nat) = of_char d)"
  by simp

lemma num_char_facts:
  assumes "num_char c"
  shows "keypoints_class c" "c \<noteq> NL" "c \<noteq> CHR '']''" "\<not> py_isspace c" "c \<noteq> CHR 0x22"
proof -
  define n where "n = (of_char c :: nat)"
  have e: "(c = d) = (n = of_char d)" for d unfolding n_def by simp
  from assms have n: "(48 \<le> n \<and> n \<le> 57) \<or> n = 46 \<or> n = 101 \<or> n = 43 \<or> n = 45"
    unfolding num_char_def py_isdigit_def less_eq_char_def e n_def[symmetric] by simp
  then show "keypoints_class c"
    unfolding keypoints_class_def py_isdigit_def less_eq_char_def e n_def[symmetric] by auto
  from n show "c \<noteq> NL" unfolding e by auto
  from n show "c \<noteq> CHR '']''" unfolding e by auto
  from n show "\<not> py_isspace c" unfolding py_isspace_def n_def[symmetric] Let_def by auto
  from n show "c \<noteq> CHR 0x22" unfolding e by auto
qed

lemma ascii_word_facts:
  assumes "ascii_word c"
  shows "is_kw c" "escape_char c = [c]"
proof -
  define n where "n = (of_char c :: nat)"
  have e: "(c = d) = (n = of_char d)" for d unfolding n_def by simp
  from assms have n: "(48 \<le> n \<and> n \<le> 57) \<or> (65 \<le> n \<and> n \<le> 90) \<or> (97 \<le> n \<and> n \<le> 122) \<or> n = 95"
    unfolding ascii_word_def py_isdigit_def less_eq_char_def e n_def[symmetric] by simp
  from assms show "is_kw c"
    by (auto simp: ascii_word_def is_kw_def py_isword_def)
  have "c \<noteq> CHR 0x5C" "c \<noteq> CHR 0x22" "c \<noteq> CHR 0x08" "c \<noteq> CHR 0x0C" "c \<noteq> NL" "c \<noteq> CHR 0x0D"
    "c \<noteq> CHR 0x09" "CHR '' '' \<le> c \<and> c \<le> CHR ''~''"
    using n unfolding e less_eq_char_def n_def[symmetric] by auto
  then show "escape_char c = [c]" unfolding escape_char_def by (simp only: if_False if_True simp_thms)
qed

lemma str_nat_digits: "str_nat n \<noteq> [] \<and> list_all py_isdigit (str_nat n)"
proof (induction n rule: str_nat.induct)
  case (1 n)
  show ?case
  proof (cases "n < 10")
    case True
    then show ?thesis by (subst str_nat.simps, subst (2) str_nat.simps) (simp add: digit_char_isdigit)
  next
    case False
    with 1 show ?thesis
      by (subst str_nat.simps, subst (2) str_nat.simps) (simp add: digit_char_isdigit)
  qed
qed

lemma str_int_num: "str_int i \<noteq> [] \<and> list_all num_char (str_int i)"
proof -
  have "list_all py_isdigit t \<Longrightarrow> list_all num_char t" for t
    by (simp add: list_all_iff num_char_def)
  with str_nat_digits show ?thesis by (simp add: str_int_def num_char_def)
qed

lemma finite_number_dumps:
  "finite_number v \<Longrightarrow> dumps l v = dumps 0 v \<and> dumps 0 v \<noteq> [] \<and> list_all num_char (dumps 0 v)"
  using str_int_num by (cases v) (simp_all add: finite_number_def)

lemma set_py_join: "set (py_join sep xs) \<subseteq> set sep \<union> \<Union> (set ` set xs)"
  by (induction sep xs rule: py_join.induct) auto

lemma py_join_nonempty: "xs \<noteq> [] \<Longrightarrow> hd xs \<noteq> [] \<Longrightarrow> py_join sep xs \<noteq> []"
  by (induction sep xs rule: py_join.induct) auto

lemma hd_py_join: "xs \<noteq> [] \<Longrightarrow> hd xs \<noteq> [] \<Longrightarrow> hd (py_join sep xs) = hd (hd xs)"
  by (induction sep xs rule: py_join.induct) auto

lemma py_join_nonempty_last: "xs \<noteq> [] \<Longrightarrow> last xs \<noteq> [] \<Longrightarrow> py_join sep xs \<noteq> []"
  by (induction sep xs rule: py_join.induct) auto

lemma last_py_join: "xs \<noteq> [] \<Longrightarrow> last xs \<noteq> [] \<Longrightarrow> last (py_join sep xs) = last (last xs)"
proof (induction sep xs rule: py_join.induct)
  case (1 sep)
  then show ?case by simp
next
  case (2 sep x)
  then show ?case by simp
next
  case (3 sep x y ys)
  from 3(3) have l: "last (y # ys) \<noteq> []" by simp
  from py_join_nonempty_last[OF _ l, of sep] have "py_join sep (y # ys) \<noteq> []" by simp
  with 3(1)[OF _ l] show ?case by simp
qed

lemma commas_elems: "t' \<in> set (commas ts) \<Longrightarrow> \<exists>t \<in> set ts. t' = t \<or> t' = t @ '',''"
  by (induction ts rule: commas.induct) auto

lemma length_commas: "length (commas ts) = length ts"
  by (induction ts rule: commas.induct) auto

lemma deindent_body:
  assumes "ts \<noteq> []" "\<forall>t \<in> set ts. t \<noteq> [] \<and> list_all num_char t"
  shows "deindent (NL # replicate n CHR '' '' @ py_join ('','' @ NL # replicate n CHR '' '') ts
                   @ NL # replicate m CHR '' '') = py_join '', '' ts"
proof -
  let ?ind = "replicate n CHR '' ''"
  have nl: "\<forall>t \<in> set ts. NL \<notin> set t"
    using assms(2) num_char_facts(2) by (auto simp: list_all_iff)
  have ni: "NL \<notin> set ?ind" by simp
  have sp: "list_all py_isspace (replicate k CHR '' '')" for k
    by (simp add: list_all_iff py_isspace_def)
  have "py_split NL (NL # ?ind @ py_join ('','' @ NL # ?ind) ts @ NL # replicate m CHR '' '')
      = [] # py_split NL (?ind @ py_join ('','' @ NL # ?ind) ts @ NL # replicate m CHR '' '')"
    by simp
  also have "\<dots> = [] # map (\<lambda>t. ?ind @ t) (commas ts) @ py_split NL (replicate m CHR '' '')"
    using py_split_body[OF nl ni assms(1)] by simp
  also have "\<dots> = [] # map (\<lambda>t. ?ind @ t) (commas ts) @ [replicate m CHR '' '']"
    by (simp add: py_split_no_sep)
  finally have split: "py_split NL (NL # ?ind @ py_join ('','' @ NL # ?ind) ts @ NL # replicate m CHR '' '')
      = [] # map (\<lambda>t. ?ind @ t) (commas ts) @ [replicate m CHR '' '']" .
  have strip1: "py_strip (?ind @ t') = t'" if "t' \<in> set (commas ts)" for t'
  proof -
    from commas_elems[OF that] obtain t where t: "t \<in> set ts" and e: "t' = t \<or> t' = t @ '',''" by blast
    from assms(2) t have tn: "t \<noteq> []" and tc: "\<forall>c \<in> set t. num_char c" by (auto simp: list_all_iff)
    from tn tc have h: "\<not> py_isspace (hd t)" and l: "\<not> py_isspace (last t)"
      using num_char_facts(4) by auto
    have c: "\<not> py_isspace CHR '',''" by (simp add: py_isspace_def)
    from e tn h l c have "t' \<noteq> []" "\<not> py_isspace (hd t')" "\<not> py_isspace (last t')" by auto
    from py_strip_pad[OF sp[of n] _ this, of "[]"] show ?thesis by simp
  qed
  have s0: "py_strip [] = []" by (simp add: py_strip_def)
  have "map (\<lambda>t. py_strip (?ind @ t)) (commas ts) = commas ts"
    by (rule map_idI) (simp add: strip1)
  then have "map py_strip ([] # map (\<lambda>t. ?ind @ t) (commas ts) @ [replicate m CHR '' ''])
      = [] # commas ts @ [[]]"
    by (simp add: py_strip_spaces[OF sp] s0 o_def)
  then have "deindent (NL # ?ind @ py_join ('','' @ NL # ?ind) ts @ NL # replicate m CHR '' '')
      = py_strip (py_join '' '' ([] # commas ts @ [[]]))"
    unfolding deindent_def split by simp
  also have "\<dots> = py_strip ('' '' @ py_join '', '' ts @ '' '')"
    using py_join_pad[OF commas_nonempty[OF assms(1)], of "'' ''"] by (simp add: py_join_commas)
  also have "\<dots> = py_join '', '' ts"
  proof -
    from assms have h0: "hd ts \<noteq> []" and l0: "last ts \<noteq> []" by auto
    from assms(1) have "hd ts \<in> set ts" "last ts \<in> set ts" by simp_all
    with assms(2) h0 l0 have "num_char (hd (hd ts))" "num_char (last (last ts))"
      by (simp_all add: list_all_iff)
    then have "\<not> py_isspace (hd (hd ts))" "\<not> py_isspace (last (last ts))"
      using num_char_facts(4) by blast+
    then have "\<not> py_isspace (hd (py_join '', '' ts))" "\<not> py_isspace (last (py_join '', '' ts))"
      using hd_py_join[OF assms(1) h0] last_py_join[OF assms(1) l0] by simp_all
    from py_strip_pad[OF sp[of 1] sp[of 1] py_join_nonempty[OF assms(1) h0] this]
    show ?thesis by simp
  qed
  finally show ?thesis .
qed

lemma body_class:
  assumes "\<forall>t \<in> set ts. list_all num_char t"
  shows "list_all keypoints_class (replicate n CHR '' '' @ py_join ('','' @ NL # replicate n CHR '' '') ts
                   @ NL # replicate m CHR '' '')"
    and "CHR '']'' \<notin> set (replicate n CHR '' '' @ py_join ('','' @ NL # replicate n CHR '' '') ts
                   @ NL # replicate m CHR '' '')"
proof -
  let ?J = "py_join ('','' @ NL # replicate n CHR '' '') ts"
  have k: "keypoints_class CHR '' ''" "keypoints_class NL" "keypoints_class CHR '',''"
    by (simp_all add: keypoints_class_def)
  have "\<forall>c \<in> set ?J. keypoints_class c \<and> c \<noteq> CHR '']''"
  proof
    fix c assume "c \<in> set ?J"
    with set_py_join[of "'','' @ NL # replicate n CHR '' ''" ts]
    have "c \<in> set ('','' @ NL # replicate n CHR '' '') \<or> (\<exists>t \<in> set ts. c \<in> set t)" by auto
    then show "keypoints_class c \<and> c \<noteq> CHR '']''"
    proof
      assume "c \<in> set ('','' @ NL # replicate n CHR '' '')"
      then have "c = CHR '','' \<or> c = NL \<or> c = CHR '' ''" by auto
      with k show ?thesis by auto
    next
      assume "\<exists>t \<in> set ts. c \<in> set t"
      with assms have "num_char c" by (auto simp: list_all_iff)
      with num_char_facts(1,3) show ?thesis by blast
    qed
  qed
  moreover have "\<forall>c \<in> set (replicate k CHR '' ''). keypoints_class c \<and> c \<noteq> CHR '']''" for k
    using k(1) by simp
  moreover have "keypoints_class NL \<and> NL \<noteq> CHR '']''" using k(2) by simp
  ultimately have "\<forall>c \<in> set (replicate n CHR '' '' @ ?J @ NL # replicate m CHR '' ''). keypoints_class c \<and> c \<noteq> CHR '']''"
    unfolding set_append set_simps by blast
  then show "list_all keypoints_class (replicate n CHR '' '' @ ?J @ NL # replicate m CHR '' '')"
    and "CHR '']'' \<notin> set (replicate n CHR '' '' @ ?J @ NL # replicate m CHR '' '')"
    unfolding list_all_iff by blast+
qed

lemma concat_escape: "\<forall>c \<in> set s. escape_char c = [c] \<Longrightarrow> concat (map escape_char s) = s"
  by (induction s) auto

lemma ascii_word_key:
  assumes "list_all ascii_word w" "py_isdigit d"
  shows "list_all ascii_word (w @ ''_keypoints_'' @ [d] @ ''d'')"
proof -
  have "list_all ascii_word ''_keypoints_''" "ascii_word CHR ''d''"
    by (simp_all add: ascii_word_def py_isdigit_def)
  moreover from assms(2) have "ascii_word d" by (simp add: ascii_word_def)
  ultimately show ?thesis using assms(1) by simp
qed

lemma dumps_key_word:
  assumes "list_all ascii_word w" "py_isdigit d"
  shows "dumps_key (KStr (w @ ''_keypoints_'' @ [d] @ ''d'')) @ '': '' @ CHR ''['' # x = key_text w d @ x"
proof -
  from ascii_word_key[OF assms] have "\<forall>c \<in> set (w @ ''_keypoints_'' @ [d] @ ''d''). escape_char c = [c]"
    using ascii_word_facts(2) by (auto simp: list_all_iff)
  from concat_escape[OF this] show ?thesis
    by (simp add: dumps_key_def encode_basestring_ascii_def key_text_def)
qed

lemma kp_find_key_text:
  assumes "w \<noteq> []" "list_all is_kw w" "py_isdigit d"
  shows "kp_find (key_text w d @ c # t) =
     (if keypoints_class c \<and> list_all keypoints_class (takeWhile (\<lambda>x. x \<noteq> CHR '']'') t)
          \<and> length (takeWhile (\<lambda>x. x \<noteq> CHR '']'') t) < length t
      then Some (key_text w d, c # takeWhile (\<lambda>x. x \<noteq> CHR '']'') t,
                 drop (Suc (length (takeWhile (\<lambda>x. x \<noteq> CHR '']'') t))) t)
      else None)"
proof -
  let ?s1 = "w @ ''_keypoints_'' @ [d] @ [CHR ''d'', CHR 0x22, CHR '':'', CHR '' '', CHR ''['']
             @ c # t"
  let ?run = "w @ ''_keypoints_'' @ [d] @ [CHR ''d'']"
  have s: "key_text w d @ c # t = CHR 0x22 # ?s1" by (simp add: key_text_def)
  have s1: "?s1 = ?run @ CHR 0x22 # ('': ['' @ c # t)" by simp
  have "takeWhile is_kw ?s1 = ?run @ takeWhile is_kw (CHR 0x22 # ('': ['' @ c # t))"
    apply (subst s1)
    apply (rule takeWhile_append2)
    using assms(2,3) is_kw_key_chars by (auto simp: list_all_iff)
  then have tw: "takeWhile is_kw ?s1 = ?run" using is_kw_key_chars(3) by simp
  have m: "length (takeWhile is_kw ?s1) = length w + 13" unfolding tw by simp
  have d1: "drop (length w + 13 - 13) ?s1 = ''_keypoints_'' @ [d] @ [CHR ''d'', CHR 0x22, CHR '':'', CHR '' '', CHR ''['']
             @ c # t" by simp
  have kt: "key_tail (drop (length w + 13 - 13) ?s1)"
    unfolding d1 key_tail_iff using assms(3) by blast
  let ?A = "w @ ''_keypoints_'' @ [d] @ [CHR ''d'', CHR 0x22, CHR '':'', CHR '' '', CHR ''['']"
  let ?B = "c # t"
  have dA: "drop (length xs) (xs @ ys) = ys" for xs ys :: string by simp
  have tA: "take (length xs) (xs @ ys) = xs" for xs ys :: string by simp
  have e: "?s1 = ?A @ ?B" by simp
  have lA: "length w + 13 + 4 = length ?A" by simp
  have d2: "drop (length w + 13 + 4) ?s1 = ?B"
    unfolding lA by (subst e) (rule dA)
  have lK: "length w + 13 + 5 = length (key_text w d)" by (simp add: key_text_def)
  have t: "take (length w + 13 + 5) (key_text w d @ ?B) = key_text w d"
    unfolding lK by (rule tA)
  have w14: "\<not> length w + 13 < 14" using assms(1) by (cases w) auto
  show ?thesis
    unfolding kp_find_def s list.case m Let_def
    by (simp only: kt w14 d2 list.case t[unfolded s] simp_thms if_True if_False)
qed

lemma slim_no_quote: "CHR 0x22 \<notin> set t \<Longrightarrow> slim (t @ r) = t @ slim r"
proof (induction t)
  case Nil
  then show ?case by simp
next
  case (Cons c t)
  then have "c \<noteq> CHR 0x22" by auto
  then have "kp_find ((c # t) @ r) = None" by (intro kp_find_not_quote) simp
  with Cons show ?case by (subst slim.simps) simp
qed

lemma kp_find_colon: "kp_find (CHR 0x22 # CHR '':'' # x) = None"
  by (simp add: kp_find_def not_is_kw)

lemma dropWhile_snoc: "\<not> P c \<Longrightarrow> \<exists>z. dropWhile P (xs @ [c]) = z @ [c]"
  by (induction xs) auto

lemma py_strip_Cons: "\<not> py_isspace c \<Longrightarrow> \<exists>y. py_strip (c # x) = c # y"
proof -
  assume c: "\<not> py_isspace c"
  from dropWhile_snoc[of py_isspace c "rev x"] c obtain z where
    "dropWhile py_isspace (rev x @ [c]) = z @ [c]" by blast
  with c show ?thesis by (simp add: py_strip_def)
qed

lemma deindent_bracket: "\<exists>y. deindent (CHR '']'' # g) = CHR '']'' # y"
proof -
  have b: "\<not> py_isspace CHR '']''" by (simp add: py_isspace_def)
  obtain x xs where sp: "py_split NL (CHR '']'' # g) = (CHR '']'' # x) # xs"
    by (cases "py_split NL g") auto
  from py_strip_Cons[OF b, of x] obtain y where y: "py_strip (CHR '']'' # x) = CHR '']'' # y" ..
  have "\<exists>j. py_join '' '' ((CHR '']'' # y) # map py_strip xs) = CHR '']'' # j"
    by (cases "map py_strip xs") auto
  then obtain j where "py_join '' '' ((CHR '']'' # y) # map py_strip xs) = CHR '']'' # j" ..
  then have "deindent (CHR '']'' # g) = py_strip (CHR '']'' # j)"
    unfolding deindent_def sp by (simp add: y)
  with py_strip_Cons[OF b, of j] show ?thesis by simp
qed

lemma key_rest:
  assumes "list_all ascii_word w" "py_isdigit d"
  shows "\<exists>u z. key_text w d @ x = CHR 0x22 # u @ z \<and> u \<noteq> [] \<and> list_all is_kw u \<and> \<not> list_all keypoints_class u"
proof -
  let ?u = "w @ ''_keypoints_'' @ [d] @ ''d''"
  from ascii_word_key[OF assms] have "list_all is_kw ?u"
    using ascii_word_facts(1) by (auto simp: list_all_iff)
  moreover have "\<not> keypoints_class CHR ''k''" by (simp add: keypoints_class_def py_isdigit_def)
  then have "\<not> list_all keypoints_class ?u" by simp
  moreover have "key_text w d @ x = CHR 0x22 # ?u @ (CHR 0x22 # '': ['' @ x)" by (simp add: key_text_def)
  ultimately show ?thesis by blast
qed

lemma slim_keypoints_array:
  assumes "w \<noteq> []" "list_all ascii_word w" "py_isdigit d" "vs \<noteq> []" "list_all finite_number vs"
  shows "slim (pre @ dumps_key (KStr (w @ ''_keypoints_'' @ [d] @ ''d'')) @ '': '' @ dumps l (JArr vs) @ post)
       = slim pre @ dumps_key (KStr (w @ ''_keypoints_'' @ [d] @ ''d'')) @ '': '' @ single_line vs @ slim post"
proof -
  let ?key = "dumps_key (KStr (w @ ''_keypoints_'' @ [d] @ ''d''))"
  let ?ts = "map (dumps 0) vs"
  let ?g = "replicate (2 * Suc l) CHR '' '' @ py_join ('','' @ NL # replicate (2 * Suc l) CHR '' '') ?ts
            @ NL # replicate (2 * l) CHR '' ''"
  have fin: "dumps (Suc l) v = dumps 0 v \<and> dumps 0 v \<noteq> [] \<and> list_all num_char (dumps 0 v)"
    if "v \<in> set vs" for v
  proof -
    from that assms(5) have "finite_number v" by (simp add: list_all_iff)
    then show ?thesis by (rule finite_number_dumps)
  qed
  have m: "map (dumps (Suc l)) vs = ?ts"
    by (rule map_cong[OF refl]) (simp add: fin)
  have ts: "\<forall>t \<in> set ?ts. t \<noteq> [] \<and> list_all num_char t"
  proof
    fix t assume "t \<in> set ?ts"
    then obtain v where "v \<in> set vs" "t = dumps 0 v" by auto
    with fin[of v] show "t \<noteq> [] \<and> list_all num_char t" by simp
  qed
  from assms(4) have tn: "?ts \<noteq> []" by simp
  have d: "dumps l (JArr vs) = CHR ''['' # NL # ?g @ '']''"
    using assms(4) by (simp add: m newline_indent_def)
  have kw: "list_all is_kw w" using assms(2) ascii_word_facts(1) by (auto simp: list_all_iff)
  have e: "?key @ '': '' @ dumps l (JArr vs) @ post = key_text w d @ NL # ?g @ CHR '']'' # post"
    unfolding d using dumps_key_word[OF assms(2,3), of "NL # ?g @ CHR '']'' # post"] by simp
  from key_rest[OF assms(2,3), of "NL # ?g @ CHR '']'' # post"] obtain u z where
    r: "key_text w d @ NL # ?g @ CHR '']'' # post = CHR 0x22 # u @ z" "u \<noteq> []" "list_all is_kw u"
       "\<not> list_all keypoints_class u" by blast
  have 1: "slim (pre @ key_text w d @ NL # ?g @ CHR '']'' # post)
      = slim pre @ slim (key_text w d @ NL # ?g @ CHR '']'' # post)"
    by (rule slim_append[OF r])
  have k: "keypoints_class NL" by (simp add: keypoints_class_def)
  from ts have tc: "\<forall>t \<in> set ?ts. list_all num_char t" by blast
  have f: "kp_find (key_text w d @ NL # ?g @ CHR '']'' # post) = Some (key_text w d, NL # ?g, post)"
    by (rule kp_find_intro[OF assms(1) kw assms(3) k body_class[OF tc]])
  have 2: "slim (key_text w d @ NL # ?g @ CHR '']'' # post)
      = key_text w d @ deindent (NL # ?g) @ CHR '']'' # slim post"
    by (subst slim.simps) (simp only: f option.case prod.case)
  have 3: "deindent (NL # ?g) = py_join '', '' ?ts"
    by (rule deindent_body[OF tn ts])
  have 4: "?key @ '': '' @ single_line vs @ slim post
      = key_text w d @ py_join '', '' ?ts @ CHR '']'' # slim post"
    using dumps_key_word[OF assms(2,3), of "py_join '', '' ?ts @ CHR '']'' # slim post"]
    by (simp add: single_line_def)
  show ?thesis unfolding e 1 2 3 4 ..
qed

lemma slim_keypoints_empty:
  assumes "w \<noteq> []" "list_all ascii_word w" "py_isdigit d"
  shows "\<exists>Y. slim (pre @ dumps_key (KStr (w @ ''_keypoints_'' @ [d] @ ''d'')) @ '': '' @ dumps l (JArr []) @ post)
       = slim pre @ dumps_key (KStr (w @ ''_keypoints_'' @ [d] @ ''d'')) @ '': '' @ single_line [] @ Y"
proof -
  let ?key = "dumps_key (KStr (w @ ''_keypoints_'' @ [d] @ ''d''))"
  have kw: "list_all is_kw w" using assms(2) ascii_word_facts(1) by (auto simp: list_all_iff)
  have e: "?key @ '': '' @ dumps l (JArr []) @ post = key_text w d @ CHR '']'' # post"
    using dumps_key_word[OF assms(2,3), of "CHR '']'' # post"] by simp
  have e': "?key @ '': '' @ single_line [] @ Y = key_text w d @ CHR '']'' # Y" for Y
    using dumps_key_word[OF assms(2,3), of "CHR '']'' # Y"] by (simp add: single_line_def)
  from key_rest[OF assms(2,3), of "CHR '']'' # post"] obtain u z where
    r: "key_text w d @ CHR '']'' # post = CHR 0x22 # u @ z" "u \<noteq> []" "list_all is_kw u"
       "\<not> list_all keypoints_class u" by blast
  have 1: "slim (pre @ key_text w d @ CHR '']'' # post) = slim pre @ slim (key_text w d @ CHR '']'' # post)"
    by (rule slim_append[OF r])
  have "\<exists>Y. slim (key_text w d @ CHR '']'' # post) = key_text w d @ CHR '']'' # Y"
  proof (cases "kp_find (key_text w d @ CHR '']'' # post)")
    case None
    let ?u = "w @ ''_keypoints_'' @ [d] @ ''d''"
    have q: "CHR 0x22 \<notin> set ?u"
      using ascii_word_key[OF assms(2,3)] ascii_word_facts(1) is_kw_key_chars(3)
      by (auto simp: list_all_iff)
    have s: "key_text w d @ CHR '']'' # post = CHR 0x22 # (?u @ CHR 0x22 # CHR '':'' # ('' ['' @ CHR '']'' # post))"
      by (simp add: key_text_def)
    have a: "slim (key_text w d @ CHR '']'' # post)
        = CHR 0x22 # slim (?u @ CHR 0x22 # CHR '':'' # ('' ['' @ CHR '']'' # post))"
      using None unfolding s by (subst slim.simps) simp
    have b: "slim (CHR 0x22 # CHR '':'' # ('' ['' @ CHR '']'' # post))
        = CHR 0x22 # slim ('': ['' @ CHR '']'' # post)"
      by (subst slim.simps) (simp add: kp_find_colon)
    have c: "slim ('': ['' @ CHR '']'' # post) = '': ['' @ slim (CHR '']'' # post)"
      by (rule slim_no_quote) simp
    have d: "slim (CHR '']'' # post) = CHR '']'' # slim post"
      by (subst slim.simps) (simp add: kp_find_not_quote)
    have "slim (key_text w d @ CHR '']'' # post) = key_text w d @ CHR '']'' # slim post"
      unfolding a slim_no_quote[OF q] b c d by (simp add: key_text_def)
    then show ?thesis ..
  next
    case (Some x)
    with kp_find_key_text[OF assms(1) kw assms(3), of "CHR '']''" post]
    obtain g r where x: "x = (key_text w d, CHR '']'' # g, r)" by (auto split: if_splits)
    from deindent_bracket[of g] obtain y where y: "deindent (CHR '']'' # g) = CHR '']'' # y" ..
    have "slim (key_text w d @ CHR '']'' # post) = key_text w d @ CHR '']'' # (y @ CHR '']'' # slim r)"
      using Some x y by (subst slim.simps) simp
    then show ?thesis ..
  qed
  then obtain Y where "slim (key_text w d @ CHR '']'' # post) = key_text w d @ CHR '']'' # Y" ..
  then show ?thesis unfolding e e' 1 by blast
qed

section \<open>The keys of a document\<close>

text \<open>\<open>members v\<close>: every key of every dictionary inside \<open>v\<close>, with its value.\<close>

fun members :: "json \<Rightarrow> (dkey \<times> json) list" where
  "members (JArr xs) = concat (map members xs)"
| "members (JObj kvs) = kvs @ concat (map (\<lambda>kv. members (snd kv)) kvs)"
| "members v = []"

lemma py_join_mem: "x \<in> set xs \<Longrightarrow> \<exists>a b. py_join sep xs = a @ x @ b"
proof (induction xs)
  case Nil
  then show ?case by simp
next
  case (Cons y ys)
  show ?case
  proof (cases "ys = []")
    case True
    with Cons.prems have "py_join sep (y # ys) = [] @ x @ []" by simp
    then show ?thesis by blast
  next
    case False
    note j = py_join_Cons[OF False, of sep y]
    show ?thesis
    proof (cases "x = y")
      case True
      with j have "py_join sep (y # ys) = [] @ x @ (sep @ py_join sep ys)" by simp
      then show ?thesis by blast
    next
      case False
      with Cons obtain a b where "py_join sep ys = a @ x @ b" by auto
      with j have "py_join sep (y # ys) = (y @ sep @ a) @ x @ b" by simp
      then show ?thesis by blast
    qed
  qed
qed

lemma members_dumps:
  "(k, v) \<in> set (members doc) \<Longrightarrow>
   \<exists>pre post l. dumps l0 doc = pre @ dumps_key k @ '': '' @ dumps l v @ post"
proof (induction doc arbitrary: l0 rule: members.induct)
  case (1 xs)
  then obtain x where x: "x \<in> set xs" and m: "(k, v) \<in> set (members x)" by auto
  from 1(1)[OF x m, of "Suc l0"] obtain pre post l where
    d: "dumps (Suc l0) x = pre @ dumps_key k @ '': '' @ dumps l v @ post" by blast
  from x have "dumps (Suc l0) x \<in> set (map (dumps (Suc l0)) xs)" by simp
  from py_join_mem[OF this, of "'','' @ newline_indent (Suc l0)"] obtain a b where
    j: "py_join ('','' @ newline_indent (Suc l0)) (map (dumps (Suc l0)) xs) = a @ dumps (Suc l0) x @ b" by blast
  from x have "xs \<noteq> []" by auto
  then have "dumps l0 (JArr xs) = (''['' @ newline_indent (Suc l0) @ a @ pre) @ dumps_key k @ '': '' @ dumps l v
      @ (post @ b @ newline_indent l0 @ '']'')"
    using j d by simp
  then show ?case by blast
next
  case (2 kvs)
  let ?f = "\<lambda>kv. dumps_key (fst kv) @ '': '' @ dumps (Suc l0) (snd kv)"
  from 2(2) have ne: "kvs \<noteq> []" by auto
  from 2(2) consider "(k, v) \<in> set kvs" | kv where "kv \<in> set kvs" "(k, v) \<in> set (members (snd kv))"
    by auto
  then show ?case
  proof cases
    case 1
    then have "?f (k, v) \<in> ?f ` set kvs" by (rule imageI)
    then have "?f (k, v) \<in> set (map ?f kvs)" unfolding set_map .
    from py_join_mem[OF this, of "'','' @ newline_indent (Suc l0)"] obtain a b where
      j: "py_join ('','' @ newline_indent (Suc l0)) (map ?f kvs) = a @ ?f (k, v) @ b" by blast
    from ne have "dumps l0 (JObj kvs) = (''{'' @ newline_indent (Suc l0) @ a) @ dumps_key k @ '': '' @ dumps (Suc l0) v
        @ (b @ newline_indent l0 @ ''}'')"
      using j by simp
    then show ?thesis by blast
  next
    case 2
    from "2.IH"[OF 2(1) 2(2), of "Suc l0"] obtain pre post l where
      d: "dumps (Suc l0) (snd kv) = pre @ dumps_key k @ '': '' @ dumps l v @ post" by blast
    from 2(1) have "?f kv \<in> ?f ` set kvs" by (rule imageI)
    then have "?f kv \<in> set (map ?f kvs)" unfolding set_map .
    from py_join_mem[OF this, of "'','' @ newline_indent (Suc l0)"] obtain a b where
      j: "py_join ('','' @ newline_indent (Suc l0)) (map ?f kvs) = a @ ?f kv @ b" by blast
    from ne have "dumps l0 (JObj kvs) = (''{'' @ newline_indent (Suc l0) @ a @ dumps_key (fst kv) @ '': '' @ pre)
        @ dumps_key k @ '': '' @ dumps l v @ (post @ b @ newline_indent l0 @ ''}'')"
      using j d by simp
    then show ?thesis by blast
  qed
qed simp_all

lemma single_line_no_newline:
  assumes "list_all finite_number vs"
  shows "NL \<notin> set (single_line vs)"
proof -
  have "\<forall>t \<in> set (map (dumps 0) vs). NL \<notin> set t"
  proof
    fix t assume "t \<in> set (map (dumps 0) vs)"
    then obtain v where "v \<in> set vs" "t = dumps 0 v" by auto
    with assms finite_number_dumps[of v 0] have "list_all num_char t" by (simp add: list_all_iff)
    then show "NL \<notin> set t" using num_char_facts(2) by (auto simp: list_all_iff)
  qed
  moreover have "NL \<notin> set '', ''" by simp
  ultimately have "NL \<notin> set (py_join '', '' (map (dumps 0) vs))"
    using set_py_join[of "'', ''" "map (dumps 0) vs"] by blast
  then show ?thesis by (simp add: single_line_def)
qed

lemma collapse_member:
  assumes "(KStr (w @ ''_keypoints_'' @ [d] @ ''d''), JArr vs) \<in> set (members (JArr recordings))"
    and "w \<noteq> []" "list_all ascii_word w" "py_isdigit d" "list_all finite_number vs"
  shows "\<exists>pre post l Y.
      json_dumps (JArr recordings)
        = pre @ dumps_key (KStr (w @ ''_keypoints_'' @ [d] @ ''d'')) @ '': '' @ dumps l (JArr vs) @ post
    \<and> slimindent_json recordings
        = Inr (slim pre @ dumps_key (KStr (w @ ''_keypoints_'' @ [d] @ ''d'')) @ '': '' @ single_line vs @ Y)
    \<and> (vs \<noteq> [] \<longrightarrow> Y = slim post)"
proof -
  let ?key = "dumps_key (KStr (w @ ''_keypoints_'' @ [d] @ ''d''))"
  from members_dumps[OF assms(1), of 0] obtain pre post l where
    d: "json_dumps (JArr recordings) = pre @ ?key @ '': '' @ dumps l (JArr vs) @ post"
    unfolding json_dumps_def by blast
  show ?thesis
  proof (cases "vs = []")
    case True
    from slim_keypoints_empty[OF assms(2-4), of pre l post] obtain Y where
      "slim (pre @ ?key @ '': '' @ dumps l (JArr []) @ post) = slim pre @ ?key @ '': '' @ single_line [] @ Y" ..
    with d True have "slimindent_json recordings = Inr (slim pre @ ?key @ '': '' @ single_line vs @ Y)"
      by (simp add: slimindent_json_slim)
    with d True show ?thesis by blast
  next
    case False
    from slim_keypoints_array[OF assms(2-4) False assms(5), of pre l post] d
    have "slimindent_json recordings = Inr (slim pre @ ?key @ '': '' @ single_line vs @ slim post)"
      by (simp add: slimindent_json_slim)
    with d show ?thesis by blast
  qed
qed

definition quoted :: "string \<Rightarrow> string" where
  "quoted s = CHR 0x22 # s @ [CHR 0x22]"

definition text_lines :: "string list \<Rightarrow> string" where
  "text_lines ls = py_join [NL] ls"

section \<open>Claims on the selective-indent serializer\<close>

text \<open>
  C3 fails on the code for a key whose \<open>N\<close> has two digits: the array of
  \<open>x_keypoints_10d\<close> keeps the indentation of the pretty print (\<open>\d\<close> is one digit).
\<close>

theorem two_digit_keypoints_key_stays_indented:
  "slimindent_json [JObj [(KStr ''x_keypoints_10d'', JArr [JInt 1, JInt 2])]]
     = Inr (text_lines [''['',
                        ''  {'',
                        ''    '' @ quoted ''x_keypoints_10d'' @ '': ['',
                        ''      1,'',
                        ''      2'',
                        ''    ]'',
                        ''  }'',
                        '']''])"
  unfolding slimindent_json_slim by code_simp

text \<open>
  C3, amended: for every key of the document whose name is a non-empty run of ASCII
  letters, digits and underscores followed by \<open>_keypoints_\<close>, one digit and \<open>d\<close>, and
  whose value is a flat array of finite numbers of any length, the output has, where the
  pretty print has the key and its indented array, the key and the array on one line,
  \<open>[v0, v1, ...]\<close> with a comma and a space between the values. The text before the key
  is rewritten as it is on its own (\<open>slim\<close> is the substitution, by
  \<open>slimindent_json_slim\<close>), and so is the text after a non-empty array.
\<close>

theorem keypoints_array_is_rendered_on_one_line:
  assumes "(KStr (w @ ''_keypoints_'' @ [d] @ ''d''), JArr vs) \<in> set (members (JArr recordings))"
    and "w \<noteq> []" "list_all ascii_word w" "py_isdigit d" "list_all finite_number vs"
  shows "\<exists>pre post l Y.
      json_dumps (JArr recordings)
        = pre @ dumps_key (KStr (w @ ''_keypoints_'' @ [d] @ ''d'')) @ '': '' @ dumps l (JArr vs) @ post
    \<and> slimindent_json recordings
        = Inr (slim pre @ dumps_key (KStr (w @ ''_keypoints_'' @ [d] @ ''d'')) @ '': '' @ single_line vs @ Y)
    \<and> (vs \<noteq> [] \<longrightarrow> Y = slim post)"
  using assms by (rule collapse_member)

theorem keypoints_array_is_rendered_on_one_line_witness:
  "\<exists>pre post l.
      json_dumps (JArr [JObj [(KStr ''a_keypoints_3d'', JArr [JInt (- 1), JFloat ''2.5e-05''])]])
        = pre @ quoted ''a_keypoints_3d'' @ '': '' @ dumps l (JArr [JInt (- 1), JFloat ''2.5e-05'']) @ post
    \<and> slimindent_json [JObj [(KStr ''a_keypoints_3d'', JArr [JInt (- 1), JFloat ''2.5e-05''])]]
        = Inr (slim pre @ quoted ''a_keypoints_3d'' @ '': [-1, 2.5e-05]'' @ slim post)"
proof -
  let ?vs = "[JInt (- 1), JFloat ''2.5e-05'']"
  let ?rs = "[JObj [(KStr ''a_keypoints_3d'', JArr ?vs)]]"
  have m: "(KStr (''a'' @ ''_keypoints_'' @ [CHR ''3''] @ ''d''), JArr ?vs) \<in> set (members (JArr ?rs))"
    by simp
  have w: "''a'' \<noteq> []" "list_all ascii_word ''a''" "py_isdigit CHR ''3''"
    by (simp_all add: ascii_word_def py_isdigit_def)
  have f: "list_all finite_number ?vs" by (simp add: finite_number_def num_char_def py_isdigit_def)
  have k: "dumps_key (KStr (''a'' @ ''_keypoints_'' @ [CHR ''3''] @ ''d'')) = quoted ''a_keypoints_3d''"
    by code_simp
  have s: "single_line ?vs = ''[-1, 2.5e-05]''" by code_simp
  from keypoints_array_is_rendered_on_one_line[OF m w f] obtain pre post l Y where
    "json_dumps (JArr ?rs) = pre @ quoted ''a_keypoints_3d'' @ '': '' @ dumps l (JArr ?vs) @ post"
    "slimindent_json ?rs = Inr (slim pre @ quoted ''a_keypoints_3d'' @ '': '' @ single_line ?vs @ Y)"
    "?vs \<noteq> [] \<longrightarrow> Y = slim post"
    unfolding k by blast
  then show ?thesis unfolding s by auto
qed

text \<open>
  C4 fails on the code for a key whose name has a hyphen before the suffix: the array of
  \<open>a-b_keypoints_2d\<close> keeps its newlines (the pattern wants letters, digits and
  underscores between the opening quote and \<open>_keypoints_\<close>).
\<close>

theorem hyphenated_keypoints_2d_key_keeps_its_newlines:
  "slimindent_json [JObj [(KStr ''a-b_keypoints_2d'', JArr [JInt 1, JInt 2])]]
     = Inr (text_lines [''['',
                        ''  {'',
                        ''    '' @ quoted ''a-b_keypoints_2d'' @ '': ['',
                        ''      1,'',
                        ''      2'',
                        ''    ]'',
                        ''  }'',
                        '']''])"
  unfolding slimindent_json_slim by code_simp

text \<open>
  C4, amended: for every key of the document whose name is a non-empty run of ASCII
  letters, digits and underscores followed by \<open>_keypoints_2d\<close>, and whose value is a flat
  array of finite numbers (negative, decimal or in exponential notation) of any length,
  the empty array included, the output has, where the pretty print has the key and its
  array, the key and the array \<open>[v0, v1, ...]\<close>, in which there is no newline.
\<close>

theorem keypoints_2d_array_has_no_newline:
  assumes "(KStr (w @ ''_keypoints_2d''), JArr vs) \<in> set (members (JArr recordings))"
    and "w \<noteq> []" "list_all ascii_word w" "list_all finite_number vs"
  shows "\<exists>pre post l Y.
      json_dumps (JArr recordings)
        = pre @ dumps_key (KStr (w @ ''_keypoints_2d'')) @ '': '' @ dumps l (JArr vs) @ post
    \<and> slimindent_json recordings
        = Inr (slim pre @ dumps_key (KStr (w @ ''_keypoints_2d'')) @ '': '' @ single_line vs @ Y)
    \<and> NL \<notin> set (single_line vs)"
proof -
  have d: "py_isdigit CHR ''2''" by (simp add: py_isdigit_def)
  have n: "w @ ''_keypoints_'' @ [CHR ''2''] @ ''d'' = w @ ''_keypoints_2d''" by simp
  from collapse_member[OF assms(1)[folded n] assms(2,3) d assms(4)] obtain pre post l Y where
    "json_dumps (JArr recordings)
        = pre @ dumps_key (KStr (w @ ''_keypoints_2d'')) @ '': '' @ dumps l (JArr vs) @ post"
    "slimindent_json recordings
        = Inr (slim pre @ dumps_key (KStr (w @ ''_keypoints_2d'')) @ '': '' @ single_line vs @ Y)"
    unfolding n by blast
  with single_line_no_newline[OF assms(4)] show ?thesis by blast
qed

theorem keypoints_2d_array_has_no_newline_witness:
  "(\<exists>pre post l Y.
      json_dumps (JArr [JObj [(KStr ''a_keypoints_2d'', JArr [])]])
        = pre @ quoted ''a_keypoints_2d'' @ '': '' @ dumps l (JArr []) @ post
    \<and> slimindent_json [JObj [(KStr ''a_keypoints_2d'', JArr [])]]
        = Inr (slim pre @ quoted ''a_keypoints_2d'' @ '': []'' @ Y))
 \<and> (\<exists>pre post l Y.
      json_dumps (JArr [JObj [(KStr ''a_keypoints_2d'', JArr (replicate 100 (JFloat ''-1.5e-07'')))]])
        = pre @ quoted ''a_keypoints_2d'' @ '': '' @ dumps l (JArr (replicate 100 (JFloat ''-1.5e-07''))) @ post
    \<and> slimindent_json [JObj [(KStr ''a_keypoints_2d'', JArr (replicate 100 (JFloat ''-1.5e-07'')))]]
        = Inr (slim pre @ quoted ''a_keypoints_2d'' @ '': '' @ single_line (replicate 100 (JFloat ''-1.5e-07'')) @ Y)
    \<and> NL \<notin> set (single_line (replicate 100 (JFloat ''-1.5e-07''))))"
proof -
  note T = keypoints_2d_array_has_no_newline
  have w: "''a'' \<noteq> []" "list_all ascii_word ''a''"
    by (simp_all add: ascii_word_def py_isdigit_def)
  have k: "dumps_key (KStr (''a'' @ ''_keypoints_2d'')) = quoted ''a_keypoints_2d''"
    by code_simp
  have m0: "(KStr (''a'' @ ''_keypoints_2d''), JArr []) \<in> set (members (JArr [JObj [(KStr ''a_keypoints_2d'', JArr [])]]))"
    by simp
  have f0: "list_all finite_number []" by simp
  have s0: "single_line [] = ''[]''" by (simp add: single_line_def)
  let ?vs = "replicate 100 (JFloat ''-1.5e-07'')"
  have m1: "(KStr (''a'' @ ''_keypoints_2d''), JArr ?vs) \<in> set (members (JArr [JObj [(KStr ''a_keypoints_2d'', JArr ?vs)]]))"
    by simp
  have "finite_number (JFloat ''-1.5e-07'')" by (simp add: finite_number_def num_char_def py_isdigit_def)
  then have f1: "list_all finite_number ?vs" by (simp add: list_all_iff)
  from T[OF m0 w f0] have 0: "\<exists>pre post l Y.
      json_dumps (JArr [JObj [(KStr ''a_keypoints_2d'', JArr [])]])
        = pre @ quoted ''a_keypoints_2d'' @ '': '' @ dumps l (JArr []) @ post
    \<and> slimindent_json [JObj [(KStr ''a_keypoints_2d'', JArr [])]]
        = Inr (slim pre @ quoted ''a_keypoints_2d'' @ '': []'' @ Y)"
    unfolding k s0 by auto
  from T[OF m1 w f1] have 1: "\<exists>pre post l Y.
      json_dumps (JArr [JObj [(KStr ''a_keypoints_2d'', JArr ?vs)]])
        = pre @ quoted ''a_keypoints_2d'' @ '': '' @ dumps l (JArr ?vs) @ post
    \<and> slimindent_json [JObj [(KStr ''a_keypoints_2d'', JArr ?vs)]]
        = Inr (slim pre @ quoted ''a_keypoints_2d'' @ '': '' @ single_line ?vs @ Y)
    \<and> NL \<notin> set (single_line ?vs)"
    unfolding k .
  from 0 1 show ?thesis by (rule conjI)
qed

text \<open>
  C5 fails on the code: after the empty array of \<open>a_keypoints_2d\<close> the pattern takes the
  closing bracket of the array for its content and runs on to the next closing bracket
  (the class \<open>[\n\d., -e]\<close> has the range from the space to \<open>e\<close>, in which there are the
  brackets, the quotation mark, the colon and the upper-case letters). The array of the
  key \<open>B\<close>, which the pretty print has on three lines, is written as \<open>[ 1]\<close> after the
  comma of the line before.
\<close>

theorem array_after_an_empty_keypoints_array_is_reindented:
  "json_dumps (JArr [JObj [(KStr ''a_keypoints_2d'', JArr []), (KStr ''B'', JArr [JInt 1])]])
     = text_lines [''['',
                   ''  {'',
                   ''    '' @ quoted ''a_keypoints_2d'' @ '': [],'',
                   ''    '' @ quoted ''B'' @ '': ['',
                   ''      1'',
                   ''    ]'',
                   ''  }'',
                   '']'']
 \<and> slimindent_json [JObj [(KStr ''a_keypoints_2d'', JArr []), (KStr ''B'', JArr [JInt 1])]]
     = Inr (text_lines [''['',
                        ''  {'',
                        ''    '' @ quoted ''a_keypoints_2d'' @ '': [], '' @ quoted ''B'' @ '': [ 1]'',
                        ''  }'',
                        '']''])"
  unfolding slimindent_json_slim by code_simp

end
